theory Spec2Isabelle
  imports Complex_Main "HOL-Library.Sublist"
begin

section \<open>Text and the Python values of the pipeline\<close>

text \<open>
  The phishing detector (\<^verbatim>\<open>detector.py\<close>, \<^verbatim>\<open>utils.py\<close>) works on Python \<^verbatim>\<open>str\<close> values.
  A \<^typ>\<open>string\<close> here is a Python string whose code points are all below 256; a
  \<^typ>\<open>char\<close> is such a code point. On these, \<^verbatim>\<open>str.lower\<close>, \<^verbatim>\<open>str.isspace\<close> and the
  classes \<^verbatim>\<open>\s\<close> and \<^verbatim>\<open>\d\<close> of the \<^verbatim>\<open>re\<close> module are the functions below.
  \<^verbatim>\<open>x in s\<close> is \<^const>\<open>sublist\<close>, \<^verbatim>\<open>s.endswith(t)\<close> is \<^const>\<open>suffix\<close>,
  \<^verbatim>\<open>s.startswith(t)\<close> is \<^const>\<open>prefix\<close>.
\<close>

definition is_space :: "char \<Rightarrow> bool" where
  "is_space c = (of_char c \<in> {9, 10, 11, 12, 13, 28, 29, 30, 31, 32, 133, 160 :: nat})"

definition is_digit :: "char \<Rightarrow> bool" where
  "is_digit c = (48 \<le> (of_char c :: nat) \<and> (of_char c :: nat) \<le> 57)"

definition lower_char :: "char \<Rightarrow> char" where
  "lower_char c =
     (let n = (of_char c :: nat)
      in if (65 \<le> n \<and> n \<le> 90) \<or> (192 \<le> n \<and> n \<le> 222 \<and> n \<noteq> 215)
         then char_of (n + 32) else c)"

definition lower :: "string \<Rightarrow> string" where
  "lower s = map lower_char s"

definition strip :: "string \<Rightarrow> string" where
  "strip s = rev (dropWhile is_space (rev (dropWhile is_space s)))"

text \<open>\<^verbatim>\<open>int(s)\<close> on a non-empty run of the digits 0 to 9, and \<^verbatim>\<open>str(n)\<close> for \<open>n \<ge> 0\<close>.\<close>

definition int_of_digits :: "string \<Rightarrow> int" where
  "int_of_digits s = foldl (\<lambda>n c. 10 * n + (int (of_char c) - 48)) 0 s"

fun digits_of :: "nat \<Rightarrow> string" where
  "digits_of n = (if n < 10 then [char_of (48 + n)]
                  else digits_of (n div 10) @ [char_of (48 + n mod 10)])"

declare digits_of.simps [simp del]

text \<open>The exceptions that the modelled code can meet, by class.\<close>

datatype exn = ValueError | TypeError | AttributeError | JSONDecodeError | RequestException

text \<open>
  Python values, as far as results are built from them. A \<^verbatim>\<open>dict\<close> is the list of its
  items in insertion order. A \<^verbatim>\<open>float\<close> is represented by the decimal value of its
  literal: the code stores and returns floats and computes nothing with them.
\<close>

datatype pyval =
    PNone
  | PBool bool
  | PInt int
  | PFloat real
  | PStr string
  | PList "pyval list"
  | PDict "(string \<times> pyval) list"

fun dict_get :: "pyval \<Rightarrow> string \<Rightarrow> pyval option" where
  "dict_get (PDict kvs) k = map_of kvs k"
| "dict_get _ k = None"

section \<open>Regular expressions\<close>

text \<open>
  The patterns of the source are kept as data and run by a backtracking matcher with the
  priorities of Python's \<^verbatim>\<open>re\<close>: the left alternative first, a greedy repetition longest
  first, a lazy one shortest first. \<^const>\<open>None\<close> of an option below is Python's \<^verbatim>\<open>None\<close>.
\<close>

record flags =
  ignorecase :: bool
  dotall :: bool

definition no_flags :: flags where
  "no_flags = \<lparr>ignorecase = False, dotall = False\<rparr>"

definition IGNORECASE :: flags where
  "IGNORECASE = \<lparr>ignorecase = True, dotall = False\<rparr>"

definition DOTALL :: flags where
  "DOTALL = \<lparr>ignorecase = False, dotall = True\<rparr>"

datatype item = Chr char | Space | Digit

datatype regex =
    Eps
  | Lit char
  | Any
  | OneOf "item list"
  | NoneOf "item list"
  | Seq regex regex
  | Alt regex regex
  | Star regex
  | Lazy regex
  | Group regex

fun item_match :: "flags \<Rightarrow> item \<Rightarrow> char \<Rightarrow> bool" where
  "item_match f (Chr c) x = (if ignorecase f then lower_char x = lower_char c else x = c)"
| "item_match f Space x = is_space x"
| "item_match f Digit x = is_digit x"

text \<open>
  A matcher state is the text not yet read and the text captured by the pattern's group
  (no pattern of the source has more than one). \<^term>\<open>ms f r st\<close> lists the states after
  \<open>r\<close> has matched from \<open>st\<close>, in the order in which the backtracking matcher tries them.
  A repetition does not iterate on an empty match of its body.
\<close>

type_synonym mstate = "string \<times> string option"

function ms :: "flags \<Rightarrow> regex \<Rightarrow> mstate \<Rightarrow> mstate list" where
  "ms f Eps st = [st]"
| "ms f (Lit c) st =
     (case fst st of [] \<Rightarrow> []
      | x # xs \<Rightarrow> if item_match f (Chr c) x then [(xs, snd st)] else [])"
| "ms f Any st =
     (case fst st of [] \<Rightarrow> []
      | x # xs \<Rightarrow> if dotall f \<or> x \<noteq> CHR 0x0A then [(xs, snd st)] else [])"
| "ms f (OneOf its) st =
     (case fst st of [] \<Rightarrow> []
      | x # xs \<Rightarrow> if list_ex (\<lambda>i. item_match f i x) its then [(xs, snd st)] else [])"
| "ms f (NoneOf its) st =
     (case fst st of [] \<Rightarrow> []
      | x # xs \<Rightarrow> if list_ex (\<lambda>i. item_match f i x) its then [] else [(xs, snd st)])"
| "ms f (Seq a b) st = concat (map (\<lambda>st'. ms f b st') (ms f a st))"
| "ms f (Alt a b) st = ms f a st @ ms f b st"
| "ms f (Star a) st =
     concat (map (\<lambda>st'. if length (fst st') < length (fst st) then ms f (Star a) st' else [])
                 (ms f a st)) @ [st]"
| "ms f (Lazy a) st =
     st # concat (map (\<lambda>st'. if length (fst st') < length (fst st) then ms f (Lazy a) st' else [])
                      (ms f a st))"
| "ms f (Group a) st =
     map (\<lambda>st'. (fst st', Some (take (length (fst st) - length (fst st')) (fst st))))
         (ms f a st)"
  by pat_completeness auto
termination
  by (relation "inv_image (less_than <*lex*> less_than) (\<lambda>(f, r, st). (size r, length (fst st)))")
     auto

declare ms.simps(8,9) [simp del]

text \<open>\<^verbatim>\<open>abc\<close>, \<^verbatim>\<open>r+\<close> and \<^verbatim>\<open>r?\<close>.\<close>

definition lits :: "string \<Rightarrow> regex" where
  "lits w = foldr (\<lambda>c r. Seq (Lit c) r) w Eps"

definition Plus :: "regex \<Rightarrow> regex" where
  "Plus r = Seq r (Star r)"

definition Opt :: "regex \<Rightarrow> regex" where
  "Opt r = Alt r Eps"

record match =
  group0 :: string
  group1 :: "string option"

definition match_at :: "flags \<Rightarrow> regex \<Rightarrow> string \<Rightarrow> match option" where
  "match_at f r s =
     (case ms f r (s, None) of [] \<Rightarrow> None
      | st # _ \<Rightarrow> Some \<lparr>group0 = take (length s - length (fst st)) s, group1 = snd st\<rparr>)"

text \<open>\<^verbatim>\<open>re.search\<close>: the match at the leftmost position that has one.\<close>

fun re_search :: "flags \<Rightarrow> regex \<Rightarrow> string \<Rightarrow> match option" where
  "re_search f r [] = match_at f r []"
| "re_search f r (c # s) =
     (case match_at f r (c # s) of None \<Rightarrow> re_search f r s | Some m \<Rightarrow> Some m)"

text \<open>
  \<^verbatim>\<open>re.findall\<close> for a pattern without groups: the matches from left to right, each search
  starting where the last match ended. Every pattern it is used with needs at least one
  character; after an empty match the scan moves on by one character.
\<close>

fun findall :: "flags \<Rightarrow> regex \<Rightarrow> string \<Rightarrow> string list" where
  "findall f r [] = (case match_at f r [] of None \<Rightarrow> [] | Some m \<Rightarrow> [group0 m])"
| "findall f r (c # s) =
     (case match_at f r (c # s) of None \<Rightarrow> findall f r s
      | Some m \<Rightarrow> group0 m # findall f r (drop (length (group0 m) - 1) s))"

subsection \<open>The language of a pattern\<close>

text \<open>
  What a pattern can match, apart from the order in which the matcher tries: the texts
  of a pattern, with the repetitions as the star of a language.
\<close>

inductive_set kleene :: "string set \<Rightarrow> string set" for A :: "string set" where
  empty: "[] \<in> kleene A"
| app: "u \<in> A \<Longrightarrow> v \<in> kleene A \<Longrightarrow> u @ v \<in> kleene A"

fun lang :: "flags \<Rightarrow> regex \<Rightarrow> string set" where
  "lang f Eps = {[]}"
| "lang f (Lit c) = {[x] |x. item_match f (Chr c) x}"
| "lang f Any = {[x] |x. dotall f \<or> x \<noteq> CHR 0x0A}"
| "lang f (OneOf its) = {[x] |x. list_ex (\<lambda>i. item_match f i x) its}"
| "lang f (NoneOf its) = {[x] |x. \<not> list_ex (\<lambda>i. item_match f i x) its}"
| "lang f (Seq a b) = {u @ v |u v. u \<in> lang f a \<and> v \<in> lang f b}"
| "lang f (Alt a b) = lang f a \<union> lang f b"
| "lang f (Star a) = kleene (lang f a)"
| "lang f (Lazy a) = kleene (lang f a)"
| "lang f (Group a) = lang f a"

section \<open>The URL analyzer (detector.py)\<close>

text \<open>
  \<^verbatim>\<open>PhishingDetector.__init__\<close>: the object holds the key, the endpoint and the two fixed
  lists.
\<close>

record detector =
  api_key :: string
  base_url :: string
  phishing_keywords :: "string list"
  suspicious_tlds :: "string list"

definition PhishingDetector :: "string \<Rightarrow> detector" where
  "PhishingDetector key =
     \<lparr>api_key = key,
      base_url = ''https://api.deepseek.com/v1/chat/completions'',
      phishing_keywords =
        [''urgent'', ''immediately'', ''verify'', ''account suspended'',
         ''password expired'', ''security alert'', ''click here'',
         ''confirm your identity'', ''unauthorized login attempt''],
      suspicious_tlds = [''.tk'', ''.ml'', ''.ga'', ''.cf'', ''.xyz'', ''.top'']\<rparr>"

text \<open>The class \<^verbatim>\<open>[^\s<>"]\<close> and the pattern \<^verbatim>\<open>https?://[^\s<>"]+|www\.[^\s<>"]+\<close>.\<close>

definition url_class :: regex where
  "url_class = NoneOf [Space, Chr CHR ''<'', Chr CHR ''>'', Chr CHR 0x22]"

text \<open>The characters of that class, said directly.\<close>

definition url_char :: "char \<Rightarrow> bool" where
  "url_char c = (\<not> is_space c \<and> c \<noteq> CHR ''<'' \<and> c \<noteq> CHR ''>'' \<and> c \<noteq> CHR 0x22)"

definition url_pattern :: regex where
  "url_pattern =
     Alt (Seq (lits ''http'') (Seq (Opt (Lit CHR ''s'')) (Seq (lits ''://'') (Plus url_class))))
         (Seq (lits ''www.'') (Plus url_class))"

text \<open>The pattern \<^verbatim>\<open>\d+\.\d+\.\d+\.\d+\<close>.\<close>

definition ip_pattern :: regex where
  "ip_pattern =
     Seq (Plus (OneOf [Digit])) (Seq (Lit CHR ''.'')
    (Seq (Plus (OneOf [Digit])) (Seq (Lit CHR ''.'')
    (Seq (Plus (OneOf [Digit])) (Seq (Lit CHR ''.'') (Plus (OneOf [Digit])))))))"

text \<open>
  \<^verbatim>\<open>urllib.parse.urlparse(url).netloc\<close>, after \<^verbatim>\<open>urlsplit\<close> of CPython 3.12: leading
  characters up to the space and the characters tab, CR and LF are removed; a scheme is
  split off when the text before the first colon is a letter followed by letters, digits,
  \<^verbatim>\<open>+\<close>, \<^verbatim>\<open>-\<close> and \<^verbatim>\<open>.\<close>; the network location is read only when \<^verbatim>\<open>//\<close> follows, up to the
  first of \<^verbatim>\<open>/\<close>, \<^verbatim>\<open>?\<close> and \<^verbatim>\<open>#\<close>. A network location with one kind of square bracket and not
  the other raises \<^verbatim>\<open>ValueError\<close> (\<^verbatim>\<open>Invalid IPv6 URL\<close>). With both brackets, releases from
  3.11.4 on validate the bracketed host with the \<^verbatim>\<open>ipaddress\<close> module and raise
  \<^verbatim>\<open>ValueError\<close> when it is refused, earlier ones accept every host: that check is the
  parameter \<open>ok\<close>. The check of the network location under NFKC normalisation never
  fails on code points below 256.
\<close>

definition is_ascii_alpha :: "char \<Rightarrow> bool" where
  "is_ascii_alpha c =
     (let n = (of_char c :: nat) in (65 \<le> n \<and> n \<le> 90) \<or> (97 \<le> n \<and> n \<le> 122))"

definition scheme_char :: "char \<Rightarrow> bool" where
  "scheme_char c = (is_ascii_alpha c \<or> is_digit c \<or> c \<in> {CHR ''+'', CHR ''-'', CHR ''.''})"

definition strip_scheme :: "string \<Rightarrow> string" where
  "strip_scheme url =
     (let i = length (takeWhile (\<lambda>c. c \<noteq> CHR '':'') url)
      in if i < length url \<and> 0 < i \<and> is_ascii_alpha (hd url) \<and> list_all scheme_char (take i url)
         then drop (i + 1) url else url)"

definition netloc :: "(string \<Rightarrow> bool) \<Rightarrow> string \<Rightarrow> exn + string" where
  "netloc ok url0 =
     (let url = filter (\<lambda>c. c \<notin> {CHR 0x09, CHR 0x0D, CHR 0x0A})
                       (dropWhile (\<lambda>c. (of_char c :: nat) \<le> 32) url0);
          rest = strip_scheme url
      in if take 2 rest = ''//''
         then (let loc = takeWhile (\<lambda>c. c \<notin> {CHR ''/'', CHR ''?'', CHR ''#''}) (drop 2 rest);
                   lb = CHR ''['' \<in> set loc; rb = CHR '']'' \<in> set loc
               in if (lb \<and> \<not> rb) \<or> (rb \<and> \<not> lb) then Inl ValueError
                  else if lb \<and> rb \<and> \<not> ok loc then Inl ValueError
                  else Inr loc)
         else Inr [])"

text \<open>A release without the check of bracketed hosts (CPython before 3.11.4).\<close>

definition no_host_check :: "string \<Rightarrow> bool" where
  "no_host_check loc = True"

record url_finding =
  url :: string
  is_shortened :: bool
  suspicious_tld :: bool
  has_ip_address :: bool
  redirect_depth :: nat

definition is_shortened_url :: "detector \<Rightarrow> string \<Rightarrow> bool" where
  "is_shortened_url self u =
     list_ex (\<lambda>shortener. sublist shortener (lower u))
       [''bit.ly'', ''tinyurl.com'', ''goo.gl'', ''ow.ly'', ''is.gd'']"

definition has_suspicious_tld :: "(string \<Rightarrow> bool) \<Rightarrow> detector \<Rightarrow> string \<Rightarrow> exn + bool" where
  "has_suspicious_tld ok self u =
     (case netloc ok u of Inl e \<Rightarrow> Inl e
      | Inr domain \<Rightarrow> Inr (list_ex (\<lambda>tld. suffix tld domain) (suspicious_tlds self)))"

definition check_redirect_possibility :: "detector \<Rightarrow> string \<Rightarrow> nat" where
  "check_redirect_possibility self u =
     length (filter (\<lambda>keyword. sublist keyword (lower u))
       [''redirect'', ''login'', ''verify'', ''confirm'', ''secure''])"

text \<open>The body of the loop of \<^verbatim>\<open>extract_urls\<close>: one finding, or the exception of \<^verbatim>\<open>urlparse\<close>.\<close>

definition analyze_url :: "(string \<Rightarrow> bool) \<Rightarrow> detector \<Rightarrow> string \<Rightarrow> exn + url_finding" where
  "analyze_url ok self u =
     (case has_suspicious_tld ok self u of Inl e \<Rightarrow> Inl e
      | Inr tld \<Rightarrow>
          Inr \<lparr>url = u,
               is_shortened = is_shortened_url self u,
               suspicious_tld = tld,
               has_ip_address = (re_search no_flags ip_pattern u \<noteq> None),
               redirect_depth = check_redirect_possibility self u\<rparr>)"

fun analyze_urls :: "(string \<Rightarrow> bool) \<Rightarrow> detector \<Rightarrow> string list \<Rightarrow> exn + url_finding list" where
  "analyze_urls ok self [] = Inr []"
| "analyze_urls ok self (u # us) =
     (case analyze_url ok self u of Inl e \<Rightarrow> Inl e
      | Inr finding \<Rightarrow>
          (case analyze_urls ok self us of Inl e \<Rightarrow> Inl e
           | Inr analyzed \<Rightarrow> Inr (finding # analyzed)))"

definition extract_urls :: "(string \<Rightarrow> bool) \<Rightarrow> detector \<Rightarrow> string \<Rightarrow> exn + url_finding list" where
  "extract_urls ok self text = analyze_urls ok self (findall no_flags url_pattern text)"

section \<open>The scorers (detector.py)\<close>

text \<open>The pattern \<^verbatim>\<open>risk[_\s]score[:\s]*(\d+)\<close>, searched with \<^verbatim>\<open>re.IGNORECASE\<close>.\<close>

definition risk_pattern :: regex where
  "risk_pattern =
     Seq (lits ''risk'') (Seq (OneOf [Chr CHR ''_'', Space]) (Seq (lits ''score'')
    (Seq (Star (OneOf [Chr CHR '':'', Space])) (Group (Plus (OneOf [Digit]))))))"

text \<open>
  \<^verbatim>\<open>_parse_text_response\<close>. \<^verbatim>\<open>int\<close> is applied to the digits of group 1 and is taken without
  the interpreter's optional limit on the length of a decimal string. \<^verbatim>\<open>text[:500]\<close> is
  \<^term>\<open>take 500 text\<close>.
\<close>

definition parse_text_response :: "detector \<Rightarrow> string \<Rightarrow> exn + pyval" where
  "parse_text_response self text =
     (case (case re_search IGNORECASE risk_pattern text of
              None \<Rightarrow> Inr 50
            | Some risk_match \<Rightarrow>
                (case group1 risk_match of None \<Rightarrow> Inl TypeError
                 | Some d \<Rightarrow> Inr (int_of_digits d)))
      of Inl e \<Rightarrow> Inl e
       | Inr risk_score \<Rightarrow>
           Inr (PDict
             [(''risk_score'', PInt risk_score),
              (''risk_level'', PStr (if risk_score > 70 then ''HIGH''
                                     else if risk_score > 30 then ''MEDIUM'' else ''LOW'')),
              (''indicators_found'', PList [PStr ''AI Analysis Available'']),
              (''technical_analysis'', PStr (take 500 text)),
              (''recommendations'', PList [PStr ''Review full analysis above'']),
              (''confidence'', PFloat 0.8)]))"

text \<open>
  \<^verbatim>\<open>_fallback_analysis\<close>. The two sums of the source, \<^verbatim>\<open>keyword_matches\<close> (line 163) and
  \<^verbatim>\<open>suspicious_urls\<close> (line 170), are functions of their own. The exception of
  \<^verbatim>\<open>extract_urls\<close> is not caught here. The metadata are a parameter that the function
  does not read, of any type here.
\<close>

definition keyword_matches :: "detector \<Rightarrow> string \<Rightarrow> nat" where
  "keyword_matches self content_lower =
     length (filter (\<lambda>keyword. sublist keyword content_lower) (phishing_keywords self))"

definition suspicious_urls :: "url_finding list \<Rightarrow> nat" where
  "suspicious_urls urls = length (filter (\<lambda>u. suspicious_tld u \<or> has_ip_address u) urls)"

definition fallback_analysis ::
  "(string \<Rightarrow> bool) \<Rightarrow> detector \<Rightarrow> string \<Rightarrow> 'm \<Rightarrow> exn + pyval" where
  "fallback_analysis ok self email_content metadata =
     (let content_lower = lower email_content;
          risk_score0 = 0 + min (int (keyword_matches self content_lower) * 15) 60
      in case extract_urls ok self email_content of Inl e \<Rightarrow> Inl e
         | Inr urls \<Rightarrow>
             (let risk_score = risk_score0 + min (int (suspicious_urls urls) * 20) 40
              in Inr (PDict
                   [(''risk_score'', PInt (min risk_score 100)),
                    (''risk_level'', PStr (if risk_score > 70 then ''HIGH''
                                           else if risk_score > 30 then ''MEDIUM'' else ''LOW'')),
                    (''indicators_found'',
                       PList [PStr (digits_of (keyword_matches self content_lower)
                                    @ '' phishing keywords''),
                              PStr (digits_of (suspicious_urls urls) @ '' suspicious URLs'')]),
                    (''technical_analysis'', PStr ''Basic analysis (AI unavailable)''),
                    (''recommendations'',
                       PList [PStr ''Exercise caution'', PStr ''Verify sender independently'']),
                    (''confidence'', PFloat 0.6)])))"

text \<open>
  \<^verbatim>\<open>analyze_with_ai\<close>. What the provider answers is an input: \<^term>\<open>Raised e\<close> when the
  request, \<^verbatim>\<open>raise_for_status\<close>, \<^verbatim>\<open>response.json()\<close> or the subscripts of line 77 raise
  \<open>e\<close>, and \<^term>\<open>Returned v\<close> when line 77 yields the value \<open>v\<close> (\<^verbatim>\<open>re.search\<close> raises
  \<^verbatim>\<open>TypeError\<close> on a value that is not a string). \<^verbatim>\<open>json.loads\<close> is the parameter
  \<open>loads\<close>. The prompt only goes into the request, and the message printed by the
  handler is not part of the result. The pattern \<^verbatim>\<open>\{.*\}\<close> is searched with \<^verbatim>\<open>re.DOTALL\<close>.
\<close>

datatype reply = Raised exn | Returned pyval

definition json_pattern :: regex where
  "json_pattern = Seq (Lit CHR ''{'') (Seq (Star Any) (Lit CHR ''}''))"

definition analyze_with_ai ::
  "(string \<Rightarrow> bool) \<Rightarrow> (string \<Rightarrow> exn + pyval) \<Rightarrow> detector \<Rightarrow> reply \<Rightarrow> string \<Rightarrow> 'm
     \<Rightarrow> exn + pyval" where
  "analyze_with_ai ok loads self provider email_content metadata =
     (case (case provider of
              Raised e \<Rightarrow> Inl e
            | Returned (PStr ai_response) \<Rightarrow>
                (case re_search DOTALL json_pattern ai_response of
                   Some json_match \<Rightarrow> loads (group0 json_match)
                 | None \<Rightarrow> parse_text_response self ai_response)
            | Returned _ \<Rightarrow> Inl TypeError)
      of Inr result \<Rightarrow> Inr result
       | Inl e \<Rightarrow> fallback_analysis ok self email_content metadata)"

subsection \<open>A decoder for the replies evaluated below\<close>

text \<open>
  \<^verbatim>\<open>json.loads\<close> on JSON texts made of objects, arrays, strings, integers, finite
  decimals and the three literals, within code points below 256. Other texts (\<^verbatim>\<open>NaN\<close>,
  \<^verbatim>\<open>Infinity\<close>, an escape for a code point from 256 on) are outside this decoder, which
  answers \<^verbatim>\<open>JSONDecodeError\<close> for them; the theorems about \<^const>\<open>analyze_with_ai\<close> hold for
  every decoder and use this one at concrete replies only. A result is the value and the
  text that follows it.
\<close>

definition json_ws :: "char \<Rightarrow> bool" where
  "json_ws c = (c \<in> {CHR '' '', CHR 0x09, CHR 0x0A, CHR 0x0D})"

definition hex_digit :: "char \<Rightarrow> nat option" where
  "hex_digit c =
     (let n = (of_char c :: nat)
      in if 48 \<le> n \<and> n \<le> 57 then Some (n - 48)
         else if 65 \<le> n \<and> n \<le> 70 then Some (n - 55)
         else if 97 \<le> n \<and> n \<le> 102 then Some (n - 87)
         else None)"

fun hex4 :: "string \<Rightarrow> nat option" where
  "hex4 [a, b, c, d] =
     (case (hex_digit a, hex_digit b, hex_digit c, hex_digit d) of
        (Some w, Some x, Some y, Some z) \<Rightarrow> Some (((w * 16 + x) * 16 + y) * 16 + z)
      | _ \<Rightarrow> None)"
| "hex4 _ = None"

definition backslash :: "char \<Rightarrow> char option" where
  "backslash e =
     (if e = CHR 0x22 \<or> e = CHR 0x5C \<or> e = CHR ''/'' then Some e
      else if e = CHR ''b'' then Some (CHR 0x08)
      else if e = CHR ''f'' then Some (CHR 0x0C)
      else if e = CHR ''n'' then Some (CHR 0x0A)
      else if e = CHR ''r'' then Some (CHR 0x0D)
      else if e = CHR ''t'' then Some (CHR 0x09)
      else None)"

fun scanstring :: "string \<Rightarrow> (string \<times> string) option" where
  "scanstring [] = None"
| "scanstring (c # s) =
     (if c = CHR 0x22 then Some ([], s)
      else if c = CHR 0x5C then
        (case s of [] \<Rightarrow> None
         | e # s' \<Rightarrow>
             if e = CHR ''u'' then
               (case hex4 (take 4 s') of None \<Rightarrow> None
                | Some n \<Rightarrow>
                    if n < 256 then
                      (case scanstring (drop 4 s') of None \<Rightarrow> None
                       | Some (t, r) \<Rightarrow> Some (char_of n # t, r))
                    else None)
             else
               (case backslash e of None \<Rightarrow> None
                | Some x \<Rightarrow>
                    (case scanstring s' of None \<Rightarrow> None | Some (t, r) \<Rightarrow> Some (x # t, r))))
      else if (of_char c :: nat) < 32 then None
      else (case scanstring s of None \<Rightarrow> None | Some (t, r) \<Rightarrow> Some (c # t, r)))"

text \<open>
  A number after \<^verbatim>\<open>(-?(?:0|[1-9][0-9]*))(\.[0-9]+)?([eE][-+]?[0-9]+)?\<close>: an \<^verbatim>\<open>int\<close> without
  fraction and exponent, a \<^verbatim>\<open>float\<close> otherwise.
\<close>

definition scan_number :: "string \<Rightarrow> (pyval \<times> string) option" where
  "scan_number s0 =
     (let neg = (take 1 s0 = ''-'');
          s = (if neg then drop 1 s0 else s0);
          ip = (if take 1 s = ''0'' then ''0'' else takeWhile is_digit s);
          s1 = drop (length ip) s;
          fp = (if take 1 s1 = ''.'' then takeWhile is_digit (drop 1 s1) else []);
          s2 = (if fp = [] then s1 else drop (1 + length fp) s1);
          e1 = (if take 1 s2 = ''e'' \<or> take 1 s2 = ''E'' then drop 1 s2 else []);
          eneg = (take 1 e1 = ''-'');
          e2 = (if take 1 e1 = ''-'' \<or> take 1 e1 = ''+'' then drop 1 e1 else e1);
          ex = takeWhile is_digit e2;
          s3 = (if ex = [] then s2 else drop (length s2 - length e2 + length ex) s2);
          sgn = (if neg then - 1 else 1)
      in if ip = [] then None
         else if fp = [] \<and> ex = [] then Some (PInt (sgn * int_of_digits ip), s3)
         else Some (PFloat (real_of_int (sgn * int_of_digits (ip @ fp))
                            * (if eneg then 1 / 10 ^ nat (int_of_digits ex)
                               else 10 ^ nat (int_of_digits ex))
                            / 10 ^ length fp), s3))"

text \<open>\<^verbatim>\<open>d[k] = v\<close> on the items of a dictionary: a known key keeps its place.\<close>

fun dict_set :: "string \<Rightarrow> pyval \<Rightarrow> (string \<times> pyval) list \<Rightarrow> (string \<times> pyval) list" where
  "dict_set k v [] = [(k, v)]"
| "dict_set k v ((k', v') # kvs) =
     (if k = k' then (k, v) # kvs else (k', v') # dict_set k v kvs)"

function scan_once :: "string \<Rightarrow> (pyval \<times> string) option"
  and parse_array :: "pyval list \<Rightarrow> string \<Rightarrow> (pyval \<times> string) option"
  and parse_object :: "(string \<times> pyval) list \<Rightarrow> string \<Rightarrow> (pyval \<times> string) option" where
  "scan_once s =
     (case s of [] \<Rightarrow> None
      | c # r \<Rightarrow>
          if c = CHR 0x22 then
            (case scanstring r of None \<Rightarrow> None | Some (t, r') \<Rightarrow> Some (PStr t, r'))
          else if c = CHR ''{'' then
            (if take 1 (dropWhile json_ws r) = ''}''
             then Some (PDict [], drop 1 (dropWhile json_ws r))
             else parse_object [] (dropWhile json_ws r))
          else if c = CHR ''['' then
            (if take 1 (dropWhile json_ws r) = '']''
             then Some (PList [], drop 1 (dropWhile json_ws r))
             else parse_array [] (dropWhile json_ws r))
          else if take 4 s = ''null'' then Some (PNone, drop 4 s)
          else if take 4 s = ''true'' then Some (PBool True, drop 4 s)
          else if take 5 s = ''false'' then Some (PBool False, drop 5 s)
          else scan_number s)"
| "parse_array acc s =
     (case scan_once s of None \<Rightarrow> None
      | Some (v, r) \<Rightarrow>
          (let r1 = dropWhile json_ws r
           in if take 1 r1 = '']'' then Some (PList (acc @ [v]), drop 1 r1)
              else if take 1 r1 = '','' \<and> length r1 \<le> length s
              then parse_array (acc @ [v]) (dropWhile json_ws (drop 1 r1))
              else None))"
| "parse_object acc s =
     (if take 1 s = [CHR 0x22] then
        (case scanstring (drop 1 s) of None \<Rightarrow> None
         | Some (k, r) \<Rightarrow>
             (let r1 = dropWhile json_ws r
              in if take 1 r1 = '':'' \<and> length r1 < length s then
                   (case scan_once (dropWhile json_ws (drop 1 r1)) of None \<Rightarrow> None
                    | Some (v, r2) \<Rightarrow>
                        (let r3 = dropWhile json_ws r2
                         in if take 1 r3 = ''}'' then Some (PDict (dict_set k v acc), drop 1 r3)
                            else if take 1 r3 = '','' \<and> length r3 \<le> length s
                            then parse_object (dict_set k v acc) (dropWhile json_ws (drop 1 r3))
                            else None))
                 else None))
      else None)"
  by pat_completeness auto
termination
proof -
  have ws: "length (dropWhile json_ws r) \<le> length r" for r
    by (rule length_dropWhile_le)
  have step: "length (dropWhile json_ws (drop (Suc 0) r)) < length r"
    if "take (Suc 0) r = [c]" for r c
  proof -
    from that have "r \<noteq> []" by auto
    then have "length (drop (Suc 0) r) < length r" by simp
    with ws [of "drop (Suc 0) r"] show ?thesis by linarith
  qed
  show ?thesis
    by (relation "measure (\<lambda>x. case x of
          Inl s \<Rightarrow> 2 * length s
        | Inr (Inl (acc, s)) \<Rightarrow> 2 * length s + 1
        | Inr (Inr (acc, s)) \<Rightarrow> 2 * length s + 1)")
       (auto simp: le_imp_less_Suc ws dest!: step)
qed

definition json_loads :: "string \<Rightarrow> exn + pyval" where
  "json_loads s =
     (case scan_once (dropWhile json_ws s) of None \<Rightarrow> Inl JSONDecodeError
      | Some (v, r) \<Rightarrow> if dropWhile json_ws r = [] then Inr v else Inl JSONDecodeError)"

section \<open>Parsing and metadata (utils.py)\<close>

text \<open>
  \<^verbatim>\<open>re.sub\<close> with a replacement text without escapes: every match, from left to right, is
  replaced. As with \<^const>\<open>findall\<close>, the patterns it is used with need at least one
  character.
\<close>

fun re_sub :: "flags \<Rightarrow> regex \<Rightarrow> string \<Rightarrow> string \<Rightarrow> string" where
  "re_sub f r repl [] = (case match_at f r [] of None \<Rightarrow> [] | Some m \<Rightarrow> repl)"
| "re_sub f r repl (c # s) =
     (case match_at f r (c # s) of None \<Rightarrow> c # re_sub f r repl s
      | Some m \<Rightarrow>
          if group0 m = [] then repl @ c # re_sub f r repl s
          else repl @ re_sub f r repl (drop (length (group0 m) - 1) s))"

text \<open>
  The patterns \<^verbatim>\<open><script[^>]*>.*?</script>\<close> and \<^verbatim>\<open><style[^>]*>.*?</style>\<close> (with
  \<^verbatim>\<open>re.DOTALL\<close>), \<^verbatim>\<open><[^>]+>\<close> and \<^verbatim>\<open>\s+\<close>.
\<close>

definition script_pattern :: regex where
  "script_pattern =
     Seq (lits ''<script'') (Seq (Star (NoneOf [Chr CHR ''>''])) (Seq (Lit CHR ''>'')
    (Seq (Lazy Any) (lits ''</script>''))))"

definition style_pattern :: regex where
  "style_pattern =
     Seq (lits ''<style'') (Seq (Star (NoneOf [Chr CHR ''>''])) (Seq (Lit CHR ''>'')
    (Seq (Lazy Any) (lits ''</style>''))))"

definition tag_pattern :: regex where
  "tag_pattern = Seq (Lit CHR ''<'') (Seq (Plus (NoneOf [Chr CHR ''>''])) (Lit CHR ''>''))"

definition spaces_pattern :: regex where
  "spaces_pattern = Plus (OneOf [Space])"

text \<open>
  \<^verbatim>\<open>html_to_text\<close>. \<^verbatim>\<open>html.unescape\<close> is the parameter \<open>unescape\<close>. No step of the body
  raises on a string, so the handler is never entered.
\<close>

definition html_to_text :: "(string \<Rightarrow> string) \<Rightarrow> string \<Rightarrow> string" where
  "html_to_text unescape html_content =
     (let html_content1 = re_sub DOTALL script_pattern [] html_content;
          html_content2 = re_sub DOTALL style_pattern [] html_content1;
          text = unescape html_content2;
          text1 = re_sub no_flags tag_pattern '' '' text;
          text2 = re_sub no_flags spaces_pattern '' '' text1
      in strip text2)"

text \<open>\<^verbatim>\<open>html.unescape\<close> on a text without \<^verbatim>\<open>&\<close>, which the library returns as it is.\<close>

definition unescape_plain :: "string \<Rightarrow> string" where
  "unescape_plain s = s"

definition extract_links :: "string \<Rightarrow> string list" where
  "extract_links text = findall no_flags url_pattern text"

text \<open>
  A message object of the \<^verbatim>\<open>email\<close> package, seen through the methods that
  \<^verbatim>\<open>parse_email\<close> calls: its header fields in order, \<^verbatim>\<open>get_content_type()\<close>,
  \<^verbatim>\<open>get_filename()\<close>, and either its sub-parts (\<^verbatim>\<open>is_multipart()\<close> is true and
  \<^verbatim>\<open>get_payload(decode=True)\<close> is \<^verbatim>\<open>None\<close>) or what
  \<^verbatim>\<open>get_payload(decode=True).decode(errors='ignore')\<close> gives: a text or an exception.
\<close>

datatype message =
    Leaf "(string \<times> string) list" string "string option" "exn + string"
  | Multipart "(string \<times> string) list" string "string option" "message list"

fun msg_headers :: "message \<Rightarrow> (string \<times> string) list" where
  "msg_headers (Leaf hs t fn p) = hs"
| "msg_headers (Multipart hs t fn ps) = hs"

fun get_content_type :: "message \<Rightarrow> string" where
  "get_content_type (Leaf hs t fn p) = t"
| "get_content_type (Multipart hs t fn ps) = t"

fun get_filename :: "message \<Rightarrow> string option" where
  "get_filename (Leaf hs t fn p) = fn"
| "get_filename (Multipart hs t fn ps) = fn"

fun is_multipart :: "message \<Rightarrow> bool" where
  "is_multipart (Leaf hs t fn p) = False"
| "is_multipart (Multipart hs t fn ps) = True"

text \<open>\<^verbatim>\<open>get_payload(decode=True).decode(errors='ignore')\<close>: \<^verbatim>\<open>None\<close> has no \<^verbatim>\<open>decode\<close>.\<close>

fun decoded_payload :: "message \<Rightarrow> exn + string" where
  "decoded_payload (Leaf hs t fn p) = p"
| "decoded_payload (Multipart hs t fn ps) = Inl AttributeError"

text \<open>\<^verbatim>\<open>msg.walk()\<close>: the message, then its parts, depth first.\<close>

fun walk :: "message \<Rightarrow> message list" where
  "walk (Leaf hs t fn p) = [Leaf hs t fn p]"
| "walk (Multipart hs t fn ps) = Multipart hs t fn ps # concat (map walk ps)"

text \<open>\<^verbatim>\<open>msg[header]\<close>: the first field of that name, names compared without case.\<close>

fun get_header :: "(string \<times> string) list \<Rightarrow> string \<Rightarrow> string option" where
  "get_header [] name = None"
| "get_header ((k, v) # hs) name = (if lower k = lower name then Some v else get_header hs name)"

record parsed_email =
  headers :: "(string \<times> string) list"
  body :: string
  attachments :: "string list"
  links :: "string list"

text \<open>The loop over the eight header names: a field that is present is copied.\<close>

fun extract_headers :: "message \<Rightarrow> string list \<Rightarrow> (string \<times> string) list" where
  "extract_headers msg [] = []"
| "extract_headers msg (header # names) =
     (case get_header (msg_headers msg) header of
        None \<Rightarrow> extract_headers msg names
      | Some v \<Rightarrow> (header, v) # extract_headers msg names)"

text \<open>
  The loop over \<^verbatim>\<open>msg.walk()\<close>, on the body and the attachments collected so far. The
  first exception ends it. An empty file name is false in the \<^verbatim>\<open>elif\<close>.
\<close>

fun walk_parts ::
  "(string \<Rightarrow> string) \<Rightarrow> message list \<Rightarrow> string \<times> string list \<Rightarrow> exn + string \<times> string list" where
  "walk_parts unescape [] acc = Inr acc"
| "walk_parts unescape (part # parts) acc =
     (let content_type = get_content_type part
      in if content_type = ''text/plain'' then
           (case decoded_payload part of Inl e \<Rightarrow> Inl e
            | Inr t \<Rightarrow> walk_parts unescape parts (fst acc @ t, snd acc))
         else if content_type = ''text/html'' then
           (case decoded_payload part of Inl e \<Rightarrow> Inl e
            | Inr html_content \<Rightarrow>
                walk_parts unescape parts (fst acc @ html_to_text unescape html_content, snd acc))
         else
           (case get_filename part of
              None \<Rightarrow> walk_parts unescape parts acc
            | Some name \<Rightarrow>
                if name = [] then walk_parts unescape parts acc
                else walk_parts unescape parts (fst acc, snd acc @ [name])))"

text \<open>
  The body of the \<^verbatim>\<open>try\<close> of \<^verbatim>\<open>parse_email\<close>. What \<^verbatim>\<open>email.message_from_string\<close> makes of
  the raw text, a message or an exception, is the input \<open>parsed\<close>.
\<close>

definition parse_email_try ::
  "(string \<Rightarrow> string) \<Rightarrow> exn + message \<Rightarrow> exn + parsed_email" where
  "parse_email_try unescape parsed =
     (case parsed of Inl e \<Rightarrow> Inl e
      | Inr msg \<Rightarrow>
          (let hs = extract_headers msg
                      [''From'', ''To'', ''Subject'', ''Date'', ''Return-Path'',
                       ''Received'', ''Message-ID'', ''Content-Type'']
           in case (if is_multipart msg then walk_parts unescape (walk msg) ([], [])
                    else (case decoded_payload msg of Inl e \<Rightarrow> Inl e | Inr t \<Rightarrow> Inr (t, [])))
              of Inl e \<Rightarrow> Inl e
               | Inr acc \<Rightarrow>
                   Inr \<lparr>headers = hs, body = fst acc, attachments = snd acc,
                        links = extract_links (fst acc)\<rparr>))"

text \<open>\<^verbatim>\<open>parse_email\<close>: the handler catches every exception of the body.\<close>

definition parse_email ::
  "(string \<Rightarrow> string) \<Rightarrow> exn + message \<Rightarrow> string \<Rightarrow> parsed_email" where
  "parse_email unescape parsed raw_email =
     (case parse_email_try unescape parsed of
        Inr result \<Rightarrow> result
      | Inl e \<Rightarrow> \<lparr>headers = [], body = raw_email, attachments = [], links = []\<rparr>)"

text \<open>The patterns \<^verbatim>\<open>From:\s*(.+)\<close> and \<^verbatim>\<open>Subject:\s*(.+)\<close>, searched with \<^verbatim>\<open>re.IGNORECASE\<close>.\<close>

definition from_pattern :: regex where
  "from_pattern = Seq (lits ''From:'') (Seq (Star (OneOf [Space])) (Group (Plus Any)))"

definition subject_pattern :: regex where
  "subject_pattern = Seq (lits ''Subject:'') (Seq (Star (OneOf [Space])) (Group (Plus Any)))"

text \<open>
  \<^verbatim>\<open>extract_metadata\<close>. The dictionary has the keys \<^verbatim>\<open>from\<close>, \<^verbatim>\<open>subject\<close>, \<^verbatim>\<open>has_links\<close>,
  \<^verbatim>\<open>has_attachments\<close> and \<^verbatim>\<open>date\<close>; the first is the field \<open>from_addr\<close> here, and
  \<^const>\<open>None\<close> is Python's \<^verbatim>\<open>None\<close>. \<^verbatim>\<open>group(1)\<close> of a match in which the group took no part
  is \<^verbatim>\<open>None\<close>, which has no \<^verbatim>\<open>strip\<close>.
\<close>

record email_metadata =
  from_addr :: string
  subject :: string
  has_links :: bool
  has_attachments :: bool
  date :: "string option"

definition stripped_group :: "match \<Rightarrow> exn + string" where
  "stripped_group m = (case group1 m of None \<Rightarrow> Inl AttributeError | Some g \<Rightarrow> Inr (strip g))"

definition extract_metadata :: "string \<Rightarrow> exn + email_metadata" where
  "extract_metadata raw_email =
     (let metadata = \<lparr>from_addr = ''Unknown'', subject = ''No Subject'', has_links = False,
                       has_attachments = False, date = None\<rparr>
      in case (case re_search IGNORECASE from_pattern raw_email of
                 None \<Rightarrow> Inr metadata
               | Some from_match \<Rightarrow>
                   (case stripped_group from_match of Inl e \<Rightarrow> Inl e
                    | Inr v \<Rightarrow> Inr (metadata\<lparr>from_addr := v\<rparr>)))
         of Inl e \<Rightarrow> Inl e
          | Inr metadata1 \<Rightarrow>
              (case (case re_search IGNORECASE subject_pattern raw_email of
                       None \<Rightarrow> Inr metadata1
                     | Some subject_match \<Rightarrow>
                         (case stripped_group subject_match of Inl e \<Rightarrow> Inl e
                          | Inr v \<Rightarrow> Inr (metadata1\<lparr>subject := v\<rparr>)))
               of Inl e \<Rightarrow> Inl e
                | Inr metadata2 \<Rightarrow>
                    Inr (metadata2
                          \<lparr>has_links := (re_search no_flags url_pattern raw_email \<noteq> None),
                           has_attachments :=
                             sublist ''Content-Disposition: attachment'' raw_email\<rparr>)))"

section \<open>Notions used in the statements\<close>

text \<open>
  A result is consistent when it has an integer \<^verbatim>\<open>risk_score\<close> and a \<^verbatim>\<open>risk_level\<close> that is
  HIGH exactly above 70, MEDIUM exactly above 30 and up to 70, LOW exactly up to 30.
\<close>

definition consistent :: "pyval \<Rightarrow> bool" where
  "consistent r =
     (case (dict_get r ''risk_score'', dict_get r ''risk_level'') of
        (Some (PInt n), Some (PStr l)) \<Rightarrow>
          (l = ''HIGH'' \<longleftrightarrow> 70 < n) \<and> (l = ''MEDIUM'' \<longleftrightarrow> 30 < n \<and> n \<le> 70) \<and>
          (l = ''LOW'' \<longleftrightarrow> n \<le> 30)
      | _ \<Rightarrow> False)"




text \<open>
  The state that the matcher tries first: the match that \<^verbatim>\<open>re\<close> reports at a position.
\<close>

definition tries_first :: "flags \<Rightarrow> regex \<Rightarrow> mstate \<Rightarrow> mstate \<Rightarrow> bool" where
  "tries_first f r st x \<longleftrightarrow> (\<exists>rest. ms f r st = x # rest)"

section \<open>The matcher and the language of a pattern\<close>

text \<open>
  Every match of the matcher is a text of the pattern, and the matcher finds a match
  wherever the pattern has a text. So a search fails exactly on the texts without a
  part in the language, and every text that \<^const>\<open>findall\<close> lists is in the language.
\<close>

lemma ms_sound:
  "st' \<in> set (ms f r st) \<Longrightarrow> \<exists>w. fst st = w @ fst st' \<and> w \<in> lang f r"
proof (induction f r st arbitrary: st' rule: ms.induct)
  case (6 f a b st)
  then obtain s1 where s1: "s1 \<in> set (ms f a st)" and s2: "st' \<in> set (ms f b s1)"
    by auto
  from "6.IH"(1) [OF s1] obtain u where u: "fst st = u @ fst s1" "u \<in> lang f a" by blast
  from "6.IH"(2) [OF s1 s2] obtain v where v: "fst s1 = v @ fst st'" "v \<in> lang f b" by blast
  from u v show ?case by auto
next
  case (8 f a st)
  show ?case
  proof (cases "st' = st")
    case True
    then show ?thesis by (auto simp del: ms.simps intro: kleene.empty)
  next
    case False
    from "8.prems" have "st' \<in> set (ms f (Star a) st)" .
    then have "st' = st \<or> (\<exists>s1 \<in> set (ms f a st). length (fst s1) < length (fst st) \<and> st' \<in> set (ms f (Star a) s1))"
      by (subst (asm) ms.simps) (auto simp del: ms.simps split: if_splits)
    with False obtain s1 where s1: "s1 \<in> set (ms f a st)"
      and len: "length (fst s1) < length (fst st)" and s2: "st' \<in> set (ms f (Star a) s1)"
      by blast
    from "8.IH"(1) [OF s1] obtain u where u: "fst st = u @ fst s1" "u \<in> lang f a" by blast
    from "8.IH"(2) [OF s1 len s2] obtain v where v: "fst s1 = v @ fst st'" "v \<in> lang f (Star a)" by blast
    from u v show ?thesis by (auto simp del: ms.simps intro: kleene.app)
  qed
next
  case (9 f a st)
  show ?case
  proof (cases "st' = st")
    case True
    then show ?thesis by (auto simp del: ms.simps intro: kleene.empty)
  next
    case False
    from "9.prems" have "st' \<in> set (ms f (Lazy a) st)" .
    then have "st' = st \<or> (\<exists>s1 \<in> set (ms f a st). length (fst s1) < length (fst st) \<and> st' \<in> set (ms f (Lazy a) s1))"
      by (subst (asm) ms.simps) (auto simp del: ms.simps split: if_splits)
    with False obtain s1 where s1: "s1 \<in> set (ms f a st)"
      and len: "length (fst s1) < length (fst st)" and s2: "st' \<in> set (ms f (Lazy a) s1)"
      by blast
    from "9.IH"(1) [OF s1] obtain u where u: "fst st = u @ fst s1" "u \<in> lang f a" by blast
    from "9.IH"(2) [OF s1 len s2] obtain v where v: "fst s1 = v @ fst st'" "v \<in> lang f (Lazy a)" by blast
    from u v show ?thesis by (auto simp del: ms.simps intro: kleene.app)
  qed
next
  case (7 f a b st)
  then show ?case by fastforce
qed (auto simp del: item_match.simps split: list.splits if_splits)

lemma kleene_cases:
  "w \<in> kleene A \<Longrightarrow> w = [] \<or> (\<exists>u v. u \<noteq> [] \<and> u \<in> A \<and> v \<in> kleene A \<and> w = u @ v)"
  by (induction rule: kleene.induct) auto

lemma ms_complete:
  "w \<in> lang f r \<Longrightarrow> \<exists>g'. (t, g') \<in> set (ms f r (w @ t, g))"
proof (induction r arbitrary: w t g)
  case (Seq a b)
  then obtain u v where w: "w = u @ v" and u: "u \<in> lang f a" and v: "v \<in> lang f b" by auto
  from Seq.IH(1) [OF u, of "v @ t" g] obtain g1 where g1: "(v @ t, g1) \<in> set (ms f a (u @ v @ t, g))" by blast
  from Seq.IH(2) [OF v, of t g1] obtain g2 where "(t, g2) \<in> set (ms f b (v @ t, g1))" by blast
  with g1 w show ?case by auto
next
  case (Star a)
  from Star.prems have "w \<in> kleene (lang f a)" by simp
  then show ?case
  proof (induction w arbitrary: g rule: length_induct)
    case (1 w)
    from kleene_cases [OF "1.prems"] show ?case
    proof
      assume "w = []" then show ?thesis by (subst ms.simps) (auto simp del: ms.simps)
    next
      assume "\<exists>u v. u \<noteq> [] \<and> u \<in> lang f a \<and> v \<in> kleene (lang f a) \<and> w = u @ v"
      then obtain u v where u: "u \<noteq> []" "u \<in> lang f a" and v: "v \<in> kleene (lang f a)" and w: "w = u @ v"
        by blast
      from Star.IH [OF u(2), of "v @ t" g] obtain g1 where g1: "(v @ t, g1) \<in> set (ms f a (u @ v @ t, g))" by blast
      from u w have "length v < length w" by simp
      with "1.IH" v obtain g2 where g2: "(t, g2) \<in> set (ms f (Star a) (v @ t, g1))" by blast
      from u have "length (v @ t) < length (u @ v @ t)" by simp
      with g1 g2 w show ?thesis
        by (subst ms.simps) (auto simp del: ms.simps intro!: bexI [of _ "(v @ t, g1)"])
    qed
  qed
next
  case (Lazy a)
  from Lazy.prems have "w \<in> kleene (lang f a)" by simp
  then show ?case
  proof (induction w arbitrary: g rule: length_induct)
    case (1 w)
    from kleene_cases [OF "1.prems"] show ?case
    proof
      assume "w = []" then show ?thesis by (subst ms.simps) (auto simp del: ms.simps)
    next
      assume "\<exists>u v. u \<noteq> [] \<and> u \<in> lang f a \<and> v \<in> kleene (lang f a) \<and> w = u @ v"
      then obtain u v where u: "u \<noteq> []" "u \<in> lang f a" and v: "v \<in> kleene (lang f a)" and w: "w = u @ v"
        by blast
      from Lazy.IH [OF u(2), of "v @ t" g] obtain g1 where g1: "(v @ t, g1) \<in> set (ms f a (u @ v @ t, g))" by blast
      from u w have "length v < length w" by simp
      with "1.IH" v obtain g2 where g2: "(t, g2) \<in> set (ms f (Lazy a) (v @ t, g1))" by blast
      from u have "length (v @ t) < length (u @ v @ t)" by simp
      with g1 g2 w show ?thesis
        by (subst ms.simps) (auto simp del: ms.simps intro!: bexI [of _ "(v @ t, g1)"])
    qed
  qed
next
  case (Group a)
  then have "w \<in> lang f a" by simp
  from Group.IH [OF this, of t g] obtain g1 where "(t, g1) \<in> set (ms f a (w @ t, g))" by blast
  then show ?case by (force simp: image_iff)
next
  case (Alt a b)
  then have "w \<in> lang f a \<or> w \<in> lang f b" by simp
  then show ?case
  proof
    assume "w \<in> lang f a"
    from Alt.IH(1) [OF this, of t g] show ?thesis by auto
  next
    assume "w \<in> lang f b"
    from Alt.IH(2) [OF this, of t g] show ?thesis by auto
  qed
next
  case (NoneOf its)
  then obtain x where "w = [x]" "\<not> list_ex (\<lambda>i. item_match f i x) its" by auto
  then show ?case by simp
next
  case (OneOf its)
  then obtain x where "w = [x]" "list_ex (\<lambda>i. item_match f i x) its" by auto
  then show ?case by simp
next
  case (Lit c)
  then obtain x where "w = [x]" "item_match f (Chr c) x" by auto
  then show ?case by (simp del: item_match.simps)
next
  case Any
  then obtain x where "w = [x]" "dotall f \<or> x \<noteq> CHR 0x0A" by auto
  then show ?case by auto
next
  case Eps
  then show ?case by simp
qed

lemma ms_take:
  assumes "st' \<in> set (ms f r (s, g))"
  shows "take (length s - length (fst st')) s \<in> lang f r"
    and "s = take (length s - length (fst st')) s @ fst st'"
proof -
  from ms_sound [OF assms] obtain w where w: "s = w @ fst st'" "w \<in> lang f r" by auto
  then have "take (length s - length (fst st')) s = w" by (metis add_diff_cancel_right' append_eq_conv_conj length_append)
  with w show "take (length s - length (fst st')) s \<in> lang f r"
    and "s = take (length s - length (fst st')) s @ fst st'" by auto
qed

lemma match_at_Some:
  assumes "match_at f r s = Some m"
  shows "group0 m \<in> lang f r" and "prefix (group0 m) s"
proof -
  from assms obtain st rest where st: "ms f r (s, None) = st # rest"
    and m: "m = \<lparr>group0 = take (length s - length (fst st)) s, group1 = snd st\<rparr>"
    by (auto simp: match_at_def split: list.splits)
  then have "st \<in> set (ms f r (s, None))" by simp
  from ms_take [OF this] m show "group0 m \<in> lang f r" and "prefix (group0 m) s"
    by (auto simp: prefix_def)
qed

lemma match_at_None_iff:
  "match_at f r s = None \<longleftrightarrow> (\<forall>w. prefix w s \<longrightarrow> w \<notin> lang f r)"
proof
  assume n: "match_at f r s = None"
  show "\<forall>w. prefix w s \<longrightarrow> w \<notin> lang f r"
  proof (intro allI impI notI)
    fix w assume "prefix w s" and w: "w \<in> lang f r"
    then obtain t where "s = w @ t" by (auto simp: prefix_def)
    with ms_complete [OF w, of t None] have "ms f r (s, None) \<noteq> []" by auto
    with n show False by (auto simp: match_at_def split: list.splits)
  qed
next
  assume a: "\<forall>w. prefix w s \<longrightarrow> w \<notin> lang f r"
  show "match_at f r s = None"
  proof (cases "match_at f r s")
    case (Some m)
    from match_at_Some [OF this] a show ?thesis by blast
  qed simp
qed

lemma re_search_None_iff:
  "re_search f r s = None \<longleftrightarrow> (\<forall>w. sublist w s \<longrightarrow> w \<notin> lang f r)"
proof (induction s)
  case Nil
  then show ?case by (simp add: match_at_None_iff)
next
  case (Cons c s)
  show ?case
  proof (cases "match_at f r (c # s)")
    case None
    then have "re_search f r (c # s) = re_search f r s" by simp
    moreover from None have "\<forall>w. prefix w (c # s) \<longrightarrow> w \<notin> lang f r"
      by (simp only: match_at_None_iff)
    ultimately show ?thesis
      by (auto simp: Cons.IH sublist_Cons_right)
  next
    case (Some m)
    from match_at_Some [OF Some] have "group0 m \<in> lang f r" "sublist (group0 m) (c # s)"
      by (auto intro: prefix_imp_sublist)
    with Some show ?thesis by auto
  qed
qed

lemma re_search_Some:
  "re_search f r s = Some m \<Longrightarrow> group0 m \<in> lang f r \<and> sublist (group0 m) s"
proof (induction s)
  case Nil
  then show ?case using match_at_Some [of f r "[]" m] by auto
next
  case (Cons c s)
  show ?case
  proof (cases "match_at f r (c # s)")
    case None
    with Cons show ?thesis by (auto simp: sublist_Cons_right)
  next
    case (Some m')
    with Cons.prems have "m' = m" by simp
    with Some match_at_Some [of f r "c # s" m] show ?thesis
      by (auto intro: prefix_imp_sublist)
  qed
qed

lemma findall_sound:
  "u \<in> set (findall f r s) \<Longrightarrow> u \<in> lang f r \<and> sublist u s"
proof (induction f r s rule: findall.induct)
  case (1 f r)
  show ?case
  proof (cases "match_at f r []")
    case None
    with 1 show ?thesis by simp
  next
    case (Some m)
    with 1 have "u = group0 m" by simp
    with match_at_Some [OF Some] show ?thesis by (auto intro: prefix_imp_sublist)
  qed
next
  case (2 f r c s)
  show ?case
  proof (cases "match_at f r (c # s)")
    case None
    with 2 show ?thesis by (auto simp: sublist_Cons_right)
  next
    case (Some m)
    from "2.prems" Some have "u = group0 m \<or> u \<in> set (findall f r (drop (length (group0 m) - 1) s))"
      by simp
    then show ?thesis
    proof
      assume "u = group0 m"
      with match_at_Some [OF Some] show ?thesis by (auto intro: prefix_imp_sublist)
    next
      assume "u \<in> set (findall f r (drop (length (group0 m) - 1) s))"
      from "2.IH"(2) [OF Some this] have "u \<in> lang f r" and "sublist u (drop (length (group0 m) - 1) s)"
        by auto
      moreover have "sublist (drop (length (group0 m) - 1) s) (c # s)"
        by (metis sublist_Cons_right sublist_drop)
      ultimately show ?thesis by (auto intro: sublist_order.order_trans)
    qed
  qed
qed

subsection \<open>The languages of the patterns of the source\<close>

lemma lang_lits: "lang no_flags (lits w) = {w}"
  by (induction w) (auto simp: lits_def no_flags_def)

lemma kleene_chars: "kleene {[x] |x. P x} = {w. \<forall>x \<in> set w. P x}"
proof (intro set_eqI iffI)
  fix w assume "w \<in> kleene {[x] |x. P x}"
  then show "w \<in> {w. \<forall>x \<in> set w. P x}" by (induction rule: kleene.induct) auto
next
  fix w assume "w \<in> {w. \<forall>x \<in> set w. P x}"
  then show "w \<in> kleene {[x] |x. P x}"
  proof (induction w)
    case Nil
    show ?case by (rule kleene.empty)
  next
    case (Cons a w)
    then have "[a] \<in> {[x] |x. P x}" and "w \<in> kleene {[x] |x. P x}" by auto
    from kleene.app [OF this] show ?case by simp
  qed
qed

lemma lang_url_class: "lang no_flags url_class = {[x] |x. url_char x}"
  by (auto simp: url_class_def url_char_def no_flags_def)

lemma lang_plus_chars:
  assumes "lang f r = {[x] |x. P x}"
  shows "lang f (Plus r) = {w. w \<noteq> [] \<and> (\<forall>x \<in> set w. P x)}"
proof (intro set_eqI iffI)
  fix w assume "w \<in> lang f (Plus r)"
  then obtain u v where "w = u @ v" "u \<in> {[x] |x. P x}" "v \<in> {w. \<forall>x \<in> set w. P x}"
    by (auto simp: Plus_def assms kleene_chars)
  then show "w \<in> {w. w \<noteq> [] \<and> (\<forall>x \<in> set w. P x)}" by auto
next
  fix w assume "w \<in> {w. w \<noteq> [] \<and> (\<forall>x \<in> set w. P x)}"
  then obtain x v where w: "w = [x] @ v" and "P x" "\<forall>y \<in> set v. P y" by (cases w) auto
  then have "[x] \<in> lang f r" "v \<in> kleene (lang f r)" by (auto simp: assms kleene_chars)
  then show "w \<in> lang f (Plus r)" unfolding Plus_def lang.simps w by blast
qed

lemma in_lang_seq: "u \<in> lang f a \<Longrightarrow> v \<in> lang f b \<Longrightarrow> u @ v \<in> lang f (Seq a b)"
  by auto

lemma in_lang_url_pattern:
  "u \<in> lang no_flags url_pattern \<longleftrightarrow>
     (\<exists>w. w \<noteq> [] \<and> (\<forall>x \<in> set w. url_char x) \<and>
          (u = ''http://'' @ w \<or> u = ''https://'' @ w \<or> u = ''www.'' @ w))"
proof
  let ?U = "{w. w \<noteq> [] \<and> (\<forall>x \<in> set w. url_char x)}"
  have U: "lang no_flags (Plus url_class) = ?U"
    by (rule lang_plus_chars [OF lang_url_class])
  assume "u \<in> lang no_flags url_pattern"
  then consider
      (h) p w where "u = ''http'' @ p @ ''://'' @ w" "p \<in> lang no_flags (Opt (Lit CHR ''s''))" "w \<in> ?U"
    | (w) w where "u = ''www.'' @ w" "w \<in> ?U"
    unfolding url_pattern_def lang.simps(6,7) lang_lits U by blast
  then show "\<exists>w. w \<noteq> [] \<and> (\<forall>x \<in> set w. url_char x) \<and>
          (u = ''http://'' @ w \<or> u = ''https://'' @ w \<or> u = ''www.'' @ w)"
  proof cases
    case h
    from h(2) have "p = [] \<or> p = ''s''" by (auto simp: Opt_def no_flags_def)
    with h(1,3) show ?thesis by auto
  next
    case w
    then show ?thesis by auto
  qed
next
  let ?U = "{w. w \<noteq> [] \<and> (\<forall>x \<in> set w. url_char x)}"
  have U: "lang no_flags (Plus url_class) = ?U"
    by (rule lang_plus_chars [OF lang_url_class])
  have e: "[] \<in> lang no_flags (Opt (Lit CHR ''s''))" and s: "''s'' \<in> lang no_flags (Opt (Lit CHR ''s''))"
    by (auto simp: Opt_def no_flags_def)
  assume "\<exists>w. w \<noteq> [] \<and> (\<forall>x \<in> set w. url_char x) \<and>
          (u = ''http://'' @ w \<or> u = ''https://'' @ w \<or> u = ''www.'' @ w)"
  then obtain w where w: "w \<in> lang no_flags (Plus url_class)"
    and u: "u = ''http://'' @ w \<or> u = ''https://'' @ w \<or> u = ''www.'' @ w"
    unfolding U by blast
  have t: "''://'' @ w \<in> lang no_flags (Seq (lits ''://'') (Plus url_class))"
    by (rule in_lang_seq) (simp_all add: lang_lits w)
  have 1: "''http'' @ [] @ ''://'' @ w \<in> lang no_flags url_pattern"
    unfolding url_pattern_def lang.simps(7)
    by (intro UnI1 in_lang_seq e t) (simp add: lang_lits)
  have 2: "''http'' @ ''s'' @ ''://'' @ w \<in> lang no_flags url_pattern"
    unfolding url_pattern_def lang.simps(7)
    by (intro UnI1 in_lang_seq s t) (simp add: lang_lits)
  have 3: "''www.'' @ w \<in> lang no_flags url_pattern"
    unfolding url_pattern_def lang.simps(7)
    by (intro UnI2 in_lang_seq w) (simp add: lang_lits)
  from u 1 2 3 show "u \<in> lang no_flags url_pattern" by auto
qed

section \<open>The URL analyzer on the example of the specification\<close>

text \<open>
  Claim C8. On the text
  \<^verbatim>\<open>Visit http://secure-login-bank.xyz/verify now or http://192.168.1.1/login\<close>,
  \<^verbatim>\<open>extract_urls\<close> returns exactly two findings in the order of appearance: the first has
  \<^verbatim>\<open>suspicious_tld\<close> true, \<^verbatim>\<open>has_ip_address\<close> false and \<^verbatim>\<open>redirect_depth\<close> 3 (the keywords
  login, verify and secure), which is at least 1; the second has \<^verbatim>\<open>has_ip_address\<close> true
  and \<^verbatim>\<open>suspicious_tld\<close> false. This holds for every API key and every release of
  \<^verbatim>\<open>urlparse\<close>.
\<close>

theorem extract_urls_example:
  "extract_urls ok (PhishingDetector key)
     ''Visit http://secure-login-bank.xyz/verify now or http://192.168.1.1/login'' =
   Inr [\<lparr>url = ''http://secure-login-bank.xyz/verify'', is_shortened = False,
          suspicious_tld = True, has_ip_address = False, redirect_depth = 3\<rparr>,
        \<lparr>url = ''http://192.168.1.1/login'', is_shortened = False,
          suspicious_tld = False, has_ip_address = True, redirect_depth = 1\<rparr>]"
  by code_simp

theorem extract_urls_example_witness:
  "extract_urls no_host_check (PhishingDetector ''sk-test'')
     ''Visit http://secure-login-bank.xyz/verify now or http://192.168.1.1/login'' =
   Inr [\<lparr>url = ''http://secure-login-bank.xyz/verify'', is_shortened = False,
          suspicious_tld = True, has_ip_address = False, redirect_depth = 3\<rparr>,
        \<lparr>url = ''http://192.168.1.1/login'', is_shortened = False,
          suspicious_tld = False, has_ip_address = True, redirect_depth = 1\<rparr>]"
  using extract_urls_example [of no_host_check "''sk-test''"] .

section \<open>URLs without a scheme\<close>

lemma findall_url:
  assumes "u \<in> set (findall no_flags url_pattern text)"
  shows "\<exists>w. w \<noteq> [] \<and> (\<forall>x \<in> set w. url_char x) \<and>
          (u = ''http://'' @ w \<or> u = ''https://'' @ w \<or> u = ''www.'' @ w)"
  using findall_sound [OF assms] by (simp only: in_lang_url_pattern)

lemma url_char_not_ws: "url_char c \<Longrightarrow> c \<notin> {CHR 0x09, CHR 0x0D, CHR 0x0A}"
  by (auto simp: url_char_def is_space_def)

lemma netloc_extracted:
  assumes w: "\<forall>x \<in> set w. url_char x"
  shows "netloc ok (''www.'' @ w) =
     (if take 2 (strip_scheme (''www.'' @ w)) = ''//''
      then (let loc = takeWhile (\<lambda>c. c \<notin> {CHR ''/'', CHR ''?'', CHR ''#''})
                        (drop 2 (strip_scheme (''www.'' @ w)));
                lb = CHR ''['' \<in> set loc; rb = CHR '']'' \<in> set loc
            in if (lb \<and> \<not> rb) \<or> (rb \<and> \<not> lb) then Inl ValueError
               else if lb \<and> rb \<and> \<not> ok loc then Inl ValueError
               else Inr loc)
      else Inr [])"
proof -
  let ?u = "''www.'' @ w"
  have f: "filter (\<lambda>c. c \<notin> {CHR 0x09, CHR 0x0D, CHR 0x0A}) w = w"
  proof -
    from w url_char_not_ws have "\<forall>c \<in> set w. c \<notin> {CHR 0x09, CHR 0x0D, CHR 0x0A}" by blast
    then show ?thesis by (simp only: filter_True)
  qed
  have d: "dropWhile (\<lambda>c. (of_char c :: nat) \<le> 32) ?u = ?u" by simp
  have fw: "filter (\<lambda>c. c \<notin> {CHR 0x09, CHR 0x0D, CHR 0x0A}) ''www.'' = ''www.''" by simp
  have 1: "filter (\<lambda>c. c \<notin> {CHR 0x09, CHR 0x0D, CHR 0x0A})
       (dropWhile (\<lambda>c. (of_char c :: nat) \<le> 32) ?u) = ?u"
    by (simp only: d filter_append f fw)
  show ?thesis
    unfolding netloc_def 1 Let_def by simp
qed

lemma no_tld_empty:
  "netloc ok u = Inr [] \<Longrightarrow> has_suspicious_tld ok (PhishingDetector key) u = Inr False"
  by (simp add: has_suspicious_tld_def PhishingDetector_def)

lemma analyze_urls_Inr:
  "analyze_urls ok self us = Inr fs \<Longrightarrow>
     length fs = length us \<and> (\<forall>i < length us. analyze_url ok self (us ! i) = Inr (fs ! i))"
proof (induction us arbitrary: fs)
  case Nil
  then show ?case by simp
next
  case (Cons u us)
  then obtain f fs' where f: "analyze_url ok self u = Inr f"
    and fs': "analyze_urls ok self us = Inr fs'" and fs: "fs = f # fs'"
    by (auto split: sum.splits)
  from Cons.IH [OF fs'] f fs show ?case
    by (auto simp: nth_Cons split: nat.splits)
qed

lemma analyze_url_Inr:
  "analyze_url ok self u = Inr f \<Longrightarrow>
     url f = u \<and> has_suspicious_tld ok self u = Inr (suspicious_tld f)"
  by (auto simp: analyze_url_def split: sum.splits)

lemma extract_urls_finding:
  assumes "extract_urls ok self text = Inr fs" and "f \<in> set fs"
  shows "url f \<in> set (findall no_flags url_pattern text) \<and>
         has_suspicious_tld ok self (url f) = Inr (suspicious_tld f)"
proof -
  from assms(1) have a: "analyze_urls ok self (findall no_flags url_pattern text) = Inr fs"
    by (simp add: extract_urls_def)
  from assms(2) obtain i where i: "i < length fs" "fs ! i = f" by (auto simp: in_set_conv_nth)
  from analyze_urls_Inr [OF a] i have "analyze_url ok self (findall no_flags url_pattern text ! i) = Inr f"
    and "i < length (findall no_flags url_pattern text)" by auto
  with analyze_url_Inr [of ok self _ f] show ?thesis by (metis nth_mem)
qed

text \<open>
  Claim C10, amended. Every finding of \<^verbatim>\<open>extract_urls\<close> whose URL begins with neither
  \<^verbatim>\<open>http://\<close> nor \<^verbatim>\<open>https://\<close> has a URL that begins with \<^verbatim>\<open>www.\<close>, and its
  \<^verbatim>\<open>suspicious_tld\<close> is true exactly when \<^verbatim>\<open>urlparse\<close> splits a scheme from the URL, \<^verbatim>\<open>//\<close>
  follows that scheme, and the network location read after it ends with a suspicious
  suffix. Wherever no scheme followed by \<^verbatim>\<open>//\<close> is split off, the network location is
  empty and the flag is false: so for \<^verbatim>\<open>www.example.xyz\<close>, and also for
  \<^verbatim>\<open>www.example.xyz/login?next=http://x.tk\<close>, whose \<^verbatim>\<open>://\<close> comes after a character that no
  scheme has.
\<close>

theorem www_url_suspicious_tld:
  assumes "extract_urls ok (PhishingDetector key) text = Inr fs" and "f \<in> set fs"
    and "\<not> prefix ''http://'' (url f)" and "\<not> prefix ''https://'' (url f)"
  shows "prefix ''www.'' (url f) \<and>
         (suspicious_tld f \<longleftrightarrow>
            take 2 (strip_scheme (url f)) = ''//'' \<and>
            list_ex (\<lambda>tld. suffix tld
                       (takeWhile (\<lambda>c. c \<notin> {CHR ''/'', CHR ''?'', CHR ''#''})
                          (drop 2 (strip_scheme (url f)))))
              (suspicious_tlds (PhishingDetector key)))"
proof -
  from extract_urls_finding [OF assms(1,2)]
  have u: "url f \<in> set (findall no_flags url_pattern text)"
    and t: "has_suspicious_tld ok (PhishingDetector key) (url f) = Inr (suspicious_tld f)" by auto
  from findall_url [OF u] obtain w where w: "\<forall>x \<in> set w. url_char x"
    and c: "url f = ''http://'' @ w \<or> url f = ''https://'' @ w \<or> url f = ''www.'' @ w" by blast
  from c assms(3,4) have www: "url f = ''www.'' @ w" by (auto simp: prefix_def)
  let ?loc = "takeWhile (\<lambda>c. c \<notin> {CHR ''/'', CHR ''?'', CHR ''#''}) (drop 2 (strip_scheme (url f)))"
  show ?thesis
  proof (cases "take 2 (strip_scheme (url f)) = ''//''")
    case True
    from t obtain d where d: "netloc ok (url f) = Inr d"
      and b: "suspicious_tld f = list_ex (\<lambda>tld. suffix tld d) (suspicious_tlds (PhishingDetector key))"
      by (auto simp: has_suspicious_tld_def split: sum.splits)
    from d True have "d = ?loc"
      unfolding www netloc_extracted [OF w] Let_def by (simp split: if_splits)
    with b True www show ?thesis by simp
  next
    case False
    then have "netloc ok (url f) = Inr []"
      unfolding www netloc_extracted [OF w] by simp
    from no_tld_empty [OF this, of key] t have "\<not> suspicious_tld f" by simp
    with False www show ?thesis by simp
  qed
qed

theorem www_url_suspicious_tld_witness:
  "extract_urls no_host_check (PhishingDetector ''sk-test'')
      ''see www.example.xyz/login?next=http://x.tk'' =
     Inr [\<lparr>url = ''www.example.xyz/login?next=http://x.tk'', is_shortened = False,
           suspicious_tld = False, has_ip_address = False, redirect_depth = 1\<rparr>] \<and>
   \<not> prefix ''http://'' ''www.example.xyz/login?next=http://x.tk'' \<and>
   \<not> prefix ''https://'' ''www.example.xyz/login?next=http://x.tk'' \<and>
   prefix ''www.'' ''www.example.xyz/login?next=http://x.tk'' \<and>
   take 2 (strip_scheme ''www.example.xyz/login?next=http://x.tk'') \<noteq> ''//''"
proof -
  let ?u = "''www.example.xyz/login?next=http://x.tk''"
  let ?f = "\<lparr>url = ?u, is_shortened = False,
           suspicious_tld = False, has_ip_address = False, redirect_depth = 1\<rparr>"
  have e: "extract_urls no_host_check (PhishingDetector ''sk-test'')
      ''see www.example.xyz/login?next=http://x.tk'' = Inr [?f]"
    by code_simp
  have h1: "\<not> prefix ''http://'' (url ?f)" and h2: "\<not> prefix ''https://'' (url ?f)" by simp_all
  have s: "take 2 (strip_scheme ?u) \<noteq> ''//''" by code_simp
  from www_url_suspicious_tld [OF e _ h1 h2] e s show ?thesis by simp
qed

text \<open>
  The claim as stated fails: \<^verbatim>\<open>www.a://b.xyz\<close> is matched by the \<^verbatim>\<open>www.\<close> alternative, begins
  with neither \<^verbatim>\<open>http://\<close> nor \<^verbatim>\<open>https://\<close>, and \<^verbatim>\<open>urlparse\<close> takes \<^verbatim>\<open>www.a\<close> for its
  scheme and \<^verbatim>\<open>b.xyz\<close> for its network location.
\<close>

theorem www_scheme_counterexample:
  "extract_urls no_host_check (PhishingDetector ''sk-test'') ''see www.a://b.xyz'' =
     Inr [\<lparr>url = ''www.a://b.xyz'', is_shortened = False, suspicious_tld = True,
           has_ip_address = False, redirect_depth = 0\<rparr>] \<and>
   \<not> prefix ''http://'' ''www.a://b.xyz'' \<and> \<not> prefix ''https://'' ''www.a://b.xyz''"
  by code_simp

section \<open>The scorers\<close>

text \<open>
  The heuristic scorer returns exactly when the URL analyzer does, and then its result
  is the dictionary below; the cap at 100 changes nothing, since the two parts are at
  most 60 and 40.
\<close>

lemma fallback_analysis_cases:
  "fallback_analysis ok self content metadata =
     (case extract_urls ok self content of
        Inl e \<Rightarrow> Inl e
      | Inr urls \<Rightarrow>
          Inr (PDict
            [(''risk_score'',
                PInt (min (min (int (keyword_matches self (lower content)) * 15) 60
                           + min (int (suspicious_urls urls) * 20) 40) 100)),
             (''risk_level'',
                PStr (if min (int (keyword_matches self (lower content)) * 15) 60
                           + min (int (suspicious_urls urls) * 20) 40 > 70 then ''HIGH''
                      else if min (int (keyword_matches self (lower content)) * 15) 60
                           + min (int (suspicious_urls urls) * 20) 40 > 30 then ''MEDIUM''
                      else ''LOW'')),
             (''indicators_found'',
                PList [PStr (digits_of (keyword_matches self (lower content)) @ '' phishing keywords''),
                       PStr (digits_of (suspicious_urls urls) @ '' suspicious URLs'')]),
             (''technical_analysis'', PStr ''Basic analysis (AI unavailable)''),
             (''recommendations'',
                PList [PStr ''Exercise caution'', PStr ''Verify sender independently'']),
             (''confidence'', PFloat 0.6)]))"
  by (simp add: fallback_analysis_def Let_def split: sum.splits)

lemma fallback_consistent:
  "fallback_analysis ok self content metadata = Inr r \<Longrightarrow> consistent r"
  by (auto simp: fallback_analysis_cases consistent_def split: sum.splits)

lemma parse_text_response_consistent:
  "parse_text_response self text = Inr r \<Longrightarrow> consistent r"
  by (auto simp: parse_text_response_def consistent_def split: sum.splits option.splits)

lemma analyze_with_ai_Raised:
  "analyze_with_ai ok loads self (Raised e) content metadata =
     fallback_analysis ok self content metadata"
  by (simp add: analyze_with_ai_def)

lemma analyze_with_ai_paths:
  assumes "analyze_with_ai ok loads self provider content metadata = Inr r"
  shows "(\<exists>s jm. provider = Returned (PStr s) \<and> re_search DOTALL json_pattern s = Some jm \<and>
             loads (group0 jm) = Inr r) \<or>
         (\<exists>s. provider = Returned (PStr s) \<and> re_search DOTALL json_pattern s = None \<and>
             parse_text_response self s = Inr r) \<or>
         fallback_analysis ok self content metadata = Inr r"
  using assms
  by (auto simp: analyze_with_ai_def split: reply.splits pyval.splits option.splits sum.splits)

text \<open>
  Claim C1, amended. Every result of \<^verbatim>\<open>analyze_with_ai\<close> that comes from the text-scrape
  parser or from the heuristic fallback has a \<^verbatim>\<open>risk_score\<close> and a \<^verbatim>\<open>risk_level\<close> that agree
  with the threshold mapping. The only other results are the objects that \<^verbatim>\<open>json.loads\<close>
  decodes from the brace-delimited part of the reply: the code returns them unchecked.
\<close>

theorem results_consistent:
  assumes "analyze_with_ai ok loads self provider content metadata = Inr r"
  shows "consistent r \<or>
         (\<exists>s jm. provider = Returned (PStr s) \<and> re_search DOTALL json_pattern s = Some jm \<and>
             loads (group0 jm) = Inr r)"
  using analyze_with_ai_paths [OF assms]
proof (elim disjE exE conjE)
  fix s jm
  assume "provider = Returned (PStr s)" "re_search DOTALL json_pattern s = Some jm"
    "loads (group0 jm) = Inr r"
  then show ?thesis by blast
next
  fix s
  assume "parse_text_response self s = Inr r"
  then show ?thesis by (simp add: parse_text_response_consistent)
next
  assume "fallback_analysis ok self content metadata = Inr r"
  then show ?thesis by (simp add: fallback_consistent)
qed

theorem results_consistent_witness:
  "analyze_with_ai no_host_check json_loads (PhishingDetector ''sk-test'')
      (Returned (PStr ''Likely phishing. Risk score: 71 of 100.'')) ''Hello'' () =
     Inr (PDict
       [(''risk_score'', PInt 71), (''risk_level'', PStr ''HIGH''),
        (''indicators_found'', PList [PStr ''AI Analysis Available'']),
        (''technical_analysis'', PStr ''Likely phishing. Risk score: 71 of 100.''),
        (''recommendations'', PList [PStr ''Review full analysis above'']),
        (''confidence'', PFloat 0.8)]) \<and>
   consistent (PDict
       [(''risk_score'', PInt 71), (''risk_level'', PStr ''HIGH''),
        (''indicators_found'', PList [PStr ''AI Analysis Available'']),
        (''technical_analysis'', PStr ''Likely phishing. Risk score: 71 of 100.''),
        (''recommendations'', PList [PStr ''Review full analysis above'']),
        (''confidence'', PFloat 0.8)])"
proof -
  let ?t = "''Likely phishing. Risk score: 71 of 100.''"
  let ?r = "PDict
       [(''risk_score'', PInt 71), (''risk_level'', PStr ''HIGH''),
        (''indicators_found'', PList [PStr ''AI Analysis Available'']),
        (''technical_analysis'', PStr ?t),
        (''recommendations'', PList [PStr ''Review full analysis above'']),
        (''confidence'', PFloat 0.8)]"
  have e: "analyze_with_ai no_host_check json_loads (PhishingDetector ''sk-test'')
      (Returned (PStr ?t)) ''Hello'' () = Inr ?r"
    by code_simp
  have n: "re_search DOTALL json_pattern ?t = None" by code_simp
  from results_consistent [OF e] n have "consistent ?r" by auto
  with e show ?thesis by simp
qed

text \<open>
  The claim as stated fails on the JSON path: a reply whose object says score 10 and
  level HIGH is returned as it is.
\<close>

theorem json_path_counterexample:
  \<open>analyze_with_ai no_host_check json_loads (PhishingDetector ''sk-test'')
      (Returned (PStr ''{"risk_score": 10, "risk_level": "HIGH"}'')) ''Hello'' () =
     Inr (PDict [(''risk_score'', PInt 10), (''risk_level'', PStr ''HIGH'')]) \<and>
   \<not> consistent (PDict [(''risk_score'', PInt 10), (''risk_level'', PStr ''HIGH'')])\<close>
  by code_simp

text \<open>
  Claim C2. The claim holds wherever the URL analyzer returns (lemma
  \<open>fallback_analysis_cases\<close>), but not for every content: on a text with a URL whose
  network location has an opening square bracket and no closing one, \<^verbatim>\<open>urlparse\<close> raises
  \<^verbatim>\<open>ValueError\<close>, nothing in \<^verbatim>\<open>extract_urls\<close> or \<^verbatim>\<open>_fallback_analysis\<close> catches it, and the
  scorer returns no result.
\<close>

theorem fallback_raises:
  "fallback_analysis ok (PhishingDetector key)
     ''Verify your account at http://[2001:db8::1/login today'' metadata = Inl ValueError"
  by code_simp

theorem fallback_raises_witness:
  "fallback_analysis no_host_check (PhishingDetector ''sk-test'')
     ''Verify your account at http://[2001:db8::1/login today'' () = Inl ValueError"
  using fallback_raises [of no_host_check "''sk-test''" "()"] .

text \<open>
  Claim C3. When the call to the provider fails, \<^verbatim>\<open>analyze_with_ai\<close> does what the fallback
  does (lemma \<open>analyze_with_ai_Raised\<close>). The fallback runs inside the handler, so where it
  raises, as on the text below, \<^verbatim>\<open>analyze_with_ai\<close> raises too and returns no result with
  confidence 0.6.
\<close>

theorem analyze_with_ai_raises:
  "analyze_with_ai ok loads (PhishingDetector key) (Raised e)
     ''Your mailbox is full, open http://[fe80::1 to fix it'' metadata = Inl ValueError"
  by code_simp

theorem analyze_with_ai_raises_witness:
  "analyze_with_ai no_host_check json_loads (PhishingDetector ''sk-test'') (Raised RequestException)
     ''Your mailbox is full, open http://[fe80::1 to fix it'' () = Inl ValueError"
  using analyze_with_ai_raises [of no_host_check json_loads "''sk-test''" RequestException "()"] .

text \<open>
  Claim C9. For two contents on which the URL analyzer returns, more keyword matches and
  more suspicious URLs (each at least as many) never give a smaller \<^verbatim>\<open>risk_score\<close>; the
  score is at most 100; with four or more keyword matches the keyword part is 60, with
  two or more suspicious URLs the URL part is 40.
\<close>

theorem fallback_score_monotone:
  assumes "extract_urls ok self c1 = Inr us1" and "extract_urls ok self c2 = Inr us2"
    and "keyword_matches self (lower c1) \<le> keyword_matches self (lower c2)"
    and "suspicious_urls us1 \<le> suspicious_urls us2"
  shows "\<exists>r1 r2 s1 s2.
           fallback_analysis ok self c1 m1 = Inr r1 \<and> dict_get r1 ''risk_score'' = Some (PInt s1) \<and>
           fallback_analysis ok self c2 m2 = Inr r2 \<and> dict_get r2 ''risk_score'' = Some (PInt s2) \<and>
           s1 \<le> s2 \<and> s2 \<le> 100 \<and>
           (4 \<le> keyword_matches self (lower c2) \<longrightarrow>
              s2 = 60 + min (int (suspicious_urls us2) * 20) 40) \<and>
           (2 \<le> suspicious_urls us2 \<longrightarrow>
              s2 = min (int (keyword_matches self (lower c2)) * 15) 60 + 40)"
proof -
  let ?k1 = "int (keyword_matches self (lower c1))" and ?k2 = "int (keyword_matches self (lower c2))"
  let ?u1 = "int (suspicious_urls us1)" and ?u2 = "int (suspicious_urls us2)"
  from assms(3,4) have "?k1 \<le> ?k2" and "?u1 \<le> ?u2" by simp_all
  then have mono: "min (?k1 * 15) 60 + min (?u1 * 20) 40 \<le> min (?k2 * 15) 60 + min (?u2 * 20) 40"
    and cap: "min (?k2 * 15) 60 + min (?u2 * 20) 40 \<le> 100"
    by linarith+
  from assms(1,2) mono cap show ?thesis
    by (simp add: fallback_analysis_cases)
qed

theorem fallback_score_monotone_witness:
  "extract_urls no_host_check (PhishingDetector ''sk-test'') ''Urgent: reply now'' = Inr [] \<and>
   suspicious_urls [] = 0 \<and>
   keyword_matches (PhishingDetector ''sk-test'') (lower ''Urgent: reply now'') = 1 \<and>
   keyword_matches (PhishingDetector ''sk-test'')
     (lower ''URGENT: verify immediately, click here. Security alert http://1.2.3.4/a http://b.tk/'') = 5 \<and>
   (\<exists>r1 r2 s1 s2.
      fallback_analysis no_host_check (PhishingDetector ''sk-test'') ''Urgent: reply now'' () = Inr r1 \<and>
      dict_get r1 ''risk_score'' = Some (PInt s1) \<and>
      fallback_analysis no_host_check (PhishingDetector ''sk-test'')
        ''URGENT: verify immediately, click here. Security alert http://1.2.3.4/a http://b.tk/'' () = Inr r2 \<and>
      dict_get r2 ''risk_score'' = Some (PInt s2) \<and> s1 \<le> s2 \<and> s2 = 100)"
proof -
  let ?self = "PhishingDetector ''sk-test''"
  let ?c2 = "''URGENT: verify immediately, click here. Security alert http://1.2.3.4/a http://b.tk/''"
  let ?us2 = "[\<lparr>url = ''http://1.2.3.4/a'', is_shortened = False, suspicious_tld = False,
                 has_ip_address = True, redirect_depth = 0\<rparr>,
               \<lparr>url = ''http://b.tk/'', is_shortened = False, suspicious_tld = True,
                 has_ip_address = False, redirect_depth = 0\<rparr>]"
  have e1: "extract_urls no_host_check ?self ''Urgent: reply now'' = Inr []" by code_simp
  have e2: "extract_urls no_host_check ?self ?c2 = Inr ?us2" by code_simp
  have k1: "keyword_matches ?self (lower ''Urgent: reply now'') = 1" by code_simp
  have k2: "keyword_matches ?self (lower ?c2) = 5" by code_simp
  have u1: "suspicious_urls [] = 0" and u2: "suspicious_urls ?us2 = 2"
    by (simp_all add: suspicious_urls_def)
  from k1 k2 have k: "keyword_matches ?self (lower ''Urgent: reply now'') \<le> keyword_matches ?self (lower ?c2)"
    by simp
  from u1 u2 have u: "suspicious_urls [] \<le> suspicious_urls ?us2" by simp
  from fallback_score_monotone [OF e1 e2 k u, of "()" "()"] k2 u2 e1 u1 k1 show ?thesis
    by auto
qed

section \<open>The text-scrape parser\<close>

text \<open>
  The group of a pattern that ends in its group always takes part in a match, so
  \<^verbatim>\<open>group(1)\<close> is never \<^verbatim>\<open>None\<close> for the three patterns with a group.
\<close>

lemma re_search_match_at:
  "re_search f r s = Some m \<Longrightarrow> \<exists>t. suffix t s \<and> match_at f r t = Some m"
proof (induction s)
  case Nil
  then show ?case by auto
next
  case (Cons c s)
  show ?case
  proof (cases "match_at f r (c # s)")
    case None
    with Cons.prems have "re_search f r s = Some m" by simp
    from Cons.IH [OF this] show ?thesis by (auto intro: suffix_ConsI)
  next
    case (Some m')
    with Cons.prems have "match_at f r (c # s) = Some m" by simp
    then show ?thesis by blast
  qed
qed

lemma match_at_group1:
  assumes "match_at f r s = Some m"
  shows "\<exists>st \<in> set (ms f r (s, None)). group1 m = snd st"
  using assms by (auto simp: match_at_def split: list.splits)

lemma ms_seq_group:
  "st' \<in> set (ms f (Seq a (Group b)) st) \<Longrightarrow> \<exists>g. snd st' = Some g \<and> g \<in> lang f b"
proof -
  assume "st' \<in> set (ms f (Seq a (Group b)) st)"
  then obtain s1 where "st' \<in> set (ms f (Group b) s1)" by auto
  then obtain s2 where s2: "s2 \<in> set (ms f b s1)"
    and g: "snd st' = Some (take (length (fst s1) - length (fst s2)) (fst s1))" by auto
  from ms_take(1) [of s2 f b "fst s1" "snd s1"] s2 g show ?thesis by simp
qed

lemma ms_seq_tail: "st' \<in> set (ms f (Seq a b) st) \<Longrightarrow> \<exists>s1. st' \<in> set (ms f b s1)"
  by auto

lemma from_group:
  assumes "re_search IGNORECASE from_pattern raw = Some m"
  shows "\<exists>g. group1 m = Some g \<and> g \<in> lang IGNORECASE (Plus Any)"
proof -
  from re_search_match_at [OF assms] obtain t where "match_at IGNORECASE from_pattern t = Some m" by blast
  from match_at_group1 [OF this] obtain st where st: "st \<in> set (ms IGNORECASE from_pattern (t, None))"
    and g: "group1 m = snd st" by blast
  from st have "\<exists>g. snd st = Some g \<and> g \<in> lang IGNORECASE (Plus Any)"
    unfolding from_pattern_def
    apply -
    apply (drule ms_seq_tail, erule exE)
    apply (erule ms_seq_group)
    done
  with g show ?thesis by simp
qed

lemma subject_group:
  assumes "re_search IGNORECASE subject_pattern raw = Some m"
  shows "\<exists>g. group1 m = Some g \<and> g \<in> lang IGNORECASE (Plus Any)"
proof -
  from re_search_match_at [OF assms] obtain t where "match_at IGNORECASE subject_pattern t = Some m" by blast
  from match_at_group1 [OF this] obtain st where st: "st \<in> set (ms IGNORECASE subject_pattern (t, None))"
    and g: "group1 m = snd st" by blast
  from st have "\<exists>g. snd st = Some g \<and> g \<in> lang IGNORECASE (Plus Any)"
    unfolding subject_pattern_def
    apply -
    apply (drule ms_seq_tail, erule exE)
    apply (erule ms_seq_group)
    done
  with g show ?thesis by simp
qed


text \<open>
  What the matcher tries first, for the pieces of the patterns: literal text compared
  without case, a greedy repetition of a class of characters, a group.
\<close>

lemma tries_first_seq:
  assumes "tries_first f a st s1" and "tries_first f b s1 x"
  shows "tries_first f (Seq a b) st x"
  using assms by (auto simp: tries_first_def)

lemma tries_first_lits:
  assumes "lower (take (length w) s) = lower w"
  shows "tries_first IGNORECASE (lits w) (s, g) (drop (length w) s, g)"
  using assms
proof (induction w arbitrary: s)
  case Nil
  then show ?case by (simp add: lits_def tries_first_def)
next
  case (Cons c w)
  from Cons.prems obtain x xs where s: "s = x # xs" by (cases s) (auto simp: lower_def)
  with Cons.prems have x: "lower_char x = lower_char c" and xs: "lower (take (length w) xs) = lower w"
    by (auto simp: lower_def)
  from x have 1: "tries_first IGNORECASE (Lit c) (s, g) (xs, g)"
    by (simp add: tries_first_def s IGNORECASE_def)
  from Cons.IH [OF xs] have 2: "tries_first IGNORECASE (lits w) (xs, g) (drop (length w) xs, g)" .
  have "lits (c # w) = Seq (Lit c) (lits w)" by (simp add: lits_def)
  with tries_first_seq [OF 1 2] s show ?case by simp
qed

lemma ms_lits_none:
  assumes "lower (take (length w) s) \<noteq> lower w"
  shows "ms IGNORECASE (lits w) (s, g) = []"
  using assms
proof (induction w arbitrary: s)
  case Nil
  then show ?case by (simp add: lower_def)
next
  case (Cons c w)
  have l: "lits (c # w) = Seq (Lit c) (lits w)" by (simp add: lits_def)
  show ?case
  proof (cases s)
    case Nil
    then show ?thesis by (simp add: l)
  next
    case (Cons x xs)
    show ?thesis
    proof (cases "lower_char x = lower_char c")
      case True
      with Cons.prems Cons have "lower (take (length w) xs) \<noteq> lower w" by (auto simp: lower_def)
      from Cons.IH [OF this] True Cons show ?thesis by (simp add: l IGNORECASE_def)
    next
      case False
      with Cons show ?thesis by (simp add: l IGNORECASE_def)
    qed
  qed
qed

lemma tries_first_star:
  assumes one: "\<And>x xs g. ms f r (x # xs, g) = (if P x then [(xs, g)] else [])"
    and nil: "\<And>g. ms f r ([], g) = []"
  shows "tries_first f (Star r) (s, g) (dropWhile P s, g)"
proof (induction s)
  case Nil
  show ?case by (simp add: tries_first_def ms.simps(8) nil)
next
  case (Cons x xs)
  show ?case
  proof (cases "P x")
    case True
    from Cons obtain rest where "ms f (Star r) (xs, g) = (dropWhile P xs, g) # rest"
      by (auto simp: tries_first_def)
    with True show ?thesis
      by (simp add: tries_first_def ms.simps(8) [of f r "(x # xs, g)"] one)
  next
    case False
    then show ?thesis by (simp add: tries_first_def ms.simps(8) [of f r "(x # xs, g)"] one)
  qed
qed

lemma tries_first_plus:
  assumes one: "\<And>x xs g. ms f r (x # xs, g) = (if P x then [(xs, g)] else [])"
    and nil: "\<And>g. ms f r ([], g) = []"
    and "P x"
  shows "tries_first f (Plus r) (x # xs, g) (dropWhile P xs, g)"
  unfolding Plus_def
proof (rule tries_first_seq)
  from assms(3) show "tries_first f r (x # xs, g) (xs, g)" by (simp add: tries_first_def one)
  from one nil show "tries_first f (Star r) (xs, g) (dropWhile P xs, g)" by (rule tries_first_star)
qed

lemma tries_first_group:
  assumes "tries_first f r (s, g) (s', g')"
  shows "tries_first f (Group r) (s, g) (s', Some (take (length s - length s') s))"
  using assms by (auto simp: tries_first_def)

lemma tries_first_match_at:
  assumes "tries_first f r (s, None) (s', g')"
  shows "match_at f r s = Some \<lparr>group0 = take (length s - length s') s, group1 = g'\<rparr>"
  using assms by (auto simp: tries_first_def match_at_def)

lemma re_search_skip:
  assumes "\<forall>i < length pre. match_at f r (drop i (pre @ s)) = None"
    and "match_at f r s = Some m"
  shows "re_search f r (pre @ s) = Some m"
  using assms
proof (induction pre)
  case Nil
  then show ?case by (cases s) simp_all
next
  case (Cons c pre)
  from Cons.prems(1) have 0: "match_at f r (c # pre @ s) = None" by fastforce
  have "\<forall>i < length pre. match_at f r (drop i (pre @ s)) = None"
  proof (intro allI impI)
    fix i assume "i < length pre"
    then have "Suc i < length (c # pre)" by simp
    with Cons.prems(1) have "match_at f r (drop (Suc i) ((c # pre) @ s)) = None" by blast
    then show "match_at f r (drop i (pre @ s)) = None" by simp
  qed
  from Cons.IH [OF this Cons.prems(2)] 0 show ?case by simp
qed








lemma dropWhile_run:
  assumes "\<forall>c \<in> set u. P c" and "v = [] \<or> \<not> P (hd v)"
  shows "dropWhile P (u @ v) = v"
  using assms by (cases v) (auto simp: dropWhile_append3 dropWhile_append1 dropWhile_append2)








section \<open>The metadata extractor\<close>

lemma has_links_iff:
  "re_search no_flags url_pattern raw \<noteq> None \<longleftrightarrow>
     (\<exists>p c. p \<in> {''http://'', ''https://'', ''www.''} \<and> url_char c \<and> sublist (p @ [c]) raw)"
proof
  assume "re_search no_flags url_pattern raw \<noteq> None"
  then obtain w where s: "sublist w raw" and w: "w \<in> lang no_flags url_pattern"
    by (auto simp: re_search_None_iff)
  from w obtain p v where p: "p \<in> {''http://'', ''https://'', ''www.''}" and v: "v \<noteq> []"
    "\<forall>x \<in> set v. url_char x" and wv: "w = p @ v"
    unfolding in_lang_url_pattern by blast
  from v obtain c v' where c: "v = c # v'" "url_char c" by (cases v) auto
  with wv have "prefix (p @ [c]) w" by (simp add: prefix_def)
  then have "sublist (p @ [c]) w" by (rule prefix_imp_sublist)
  from this s have "sublist (p @ [c]) raw" by (rule sublist_order.order_trans)
  with p c show "\<exists>p c. p \<in> {''http://'', ''https://'', ''www.''} \<and> url_char c \<and> sublist (p @ [c]) raw"
    by blast
next
  assume "\<exists>p c. p \<in> {''http://'', ''https://'', ''www.''} \<and> url_char c \<and> sublist (p @ [c]) raw"
  then obtain p c where p: "p \<in> {''http://'', ''https://'', ''www.''}" "url_char c"
    and s: "sublist (p @ [c]) raw" by blast
  from p have "p @ [c] \<in> lang no_flags url_pattern"
    unfolding in_lang_url_pattern by (intro exI [of _ "[c]"]) auto
  with s show "re_search no_flags url_pattern raw \<noteq> None"
    by (auto simp: re_search_None_iff)
qed

lemma extract_metadata_general:
  "extract_metadata raw =
     Inr \<lparr>from_addr = (case re_search IGNORECASE from_pattern raw of
                         None \<Rightarrow> ''Unknown'' | Some m \<Rightarrow> strip (the (group1 m))),
          subject = (case re_search IGNORECASE subject_pattern raw of
                       None \<Rightarrow> ''No Subject'' | Some m \<Rightarrow> strip (the (group1 m))),
          has_links = (\<exists>p c. p \<in> {''http://'', ''https://'', ''www.''} \<and> url_char c \<and>
                          sublist (p @ [c]) raw),
          has_attachments = sublist ''Content-Disposition: attachment'' raw,
          date = None\<rparr>"
proof -
  have f: "(case re_search IGNORECASE from_pattern raw of
              None \<Rightarrow> Inr md
            | Some m \<Rightarrow> (case stripped_group m of Inl e \<Rightarrow> Inl e | Inr v \<Rightarrow> Inr (md\<lparr>from_addr := v\<rparr>))) =
           Inr (md\<lparr>from_addr := (case re_search IGNORECASE from_pattern raw of
                         None \<Rightarrow> from_addr md | Some m \<Rightarrow> strip (the (group1 m)))\<rparr>)" for md :: email_metadata
    using from_group [of raw] by (auto simp: stripped_group_def split: option.splits)
  have s: "(case re_search IGNORECASE subject_pattern raw of
              None \<Rightarrow> Inr md
            | Some m \<Rightarrow> (case stripped_group m of Inl e \<Rightarrow> Inl e | Inr v \<Rightarrow> Inr (md\<lparr>subject := v\<rparr>))) =
           Inr (md\<lparr>subject := (case re_search IGNORECASE subject_pattern raw of
                         None \<Rightarrow> subject md | Some m \<Rightarrow> strip (the (group1 m)))\<rparr>)" for md :: email_metadata
    using subject_group [of raw] by (auto simp: stripped_group_def split: option.splits)
  show ?thesis
    unfolding extract_metadata_def Let_def f s has_links_iff
    by (simp split: option.splits)
qed

text \<open>
  Claim C7. \<^verbatim>\<open>extract_metadata\<close> never raises. Its \<^verbatim>\<open>from\<close> is the trimmed group of the first
  match of \<^verbatim>\<open>From:\s*(.+)\<close> without case, or \<^verbatim>\<open>Unknown\<close>; its \<^verbatim>\<open>subject\<close> likewise, or
  \<^verbatim>\<open>No Subject\<close>; \<^verbatim>\<open>has_links\<close> says that the text has \<^verbatim>\<open>http://\<close>, \<^verbatim>\<open>https://\<close> or \<^verbatim>\<open>www.\<close>
  followed by a character of the URL class, which is where the URL pattern matches;
  \<^verbatim>\<open>has_attachments\<close> says that the text contains \<^verbatim>\<open>Content-Disposition: attachment\<close> as
  written; \<^verbatim>\<open>date\<close> is \<^verbatim>\<open>None\<close>. The second part is the example of the specification.
\<close>

theorem extract_metadata_value:
  "extract_metadata raw =
     Inr \<lparr>from_addr = (case re_search IGNORECASE from_pattern raw of
                         None \<Rightarrow> ''Unknown'' | Some m \<Rightarrow> strip (the (group1 m))),
          subject = (case re_search IGNORECASE subject_pattern raw of
                       None \<Rightarrow> ''No Subject'' | Some m \<Rightarrow> strip (the (group1 m))),
          has_links = (\<exists>p c. p \<in> {''http://'', ''https://'', ''www.''} \<and> url_char c \<and>
                          sublist (p @ [c]) raw),
          has_attachments = sublist ''Content-Disposition: attachment'' raw,
          date = None\<rparr> \<and>
   extract_metadata
     (''From: a@b.com'' @ [CHR 0x0A] @ ''Subject: Test'' @ [CHR 0x0A, CHR 0x0A] @ ''No links here'') =
     Inr \<lparr>from_addr = ''a@b.com'', subject = ''Test'', has_links = False,
          has_attachments = False, date = None\<rparr>"
proof
  show "extract_metadata raw =
     Inr \<lparr>from_addr = (case re_search IGNORECASE from_pattern raw of
                         None \<Rightarrow> ''Unknown'' | Some m \<Rightarrow> strip (the (group1 m))),
          subject = (case re_search IGNORECASE subject_pattern raw of
                       None \<Rightarrow> ''No Subject'' | Some m \<Rightarrow> strip (the (group1 m))),
          has_links = (\<exists>p c. p \<in> {''http://'', ''https://'', ''www.''} \<and> url_char c \<and>
                          sublist (p @ [c]) raw),
          has_attachments = sublist ''Content-Disposition: attachment'' raw,
          date = None\<rparr>"
    by (rule extract_metadata_general)
  show "extract_metadata
     (''From: a@b.com'' @ [CHR 0x0A] @ ''Subject: Test'' @ [CHR 0x0A, CHR 0x0A] @ ''No links here'') =
     Inr \<lparr>from_addr = ''a@b.com'', subject = ''Test'', has_links = False,
          has_attachments = False, date = None\<rparr>"
    by code_simp
qed

theorem extract_metadata_value_witness:
  "extract_metadata
     (''FROM:  Bank <x@y.tk> '' @ [CHR 0x0A] @ ''subject: Act now'' @ [CHR 0x0A, CHR 0x0A] @
      ''Open www.y.tk today. Content-Disposition: attachment'') =
     Inr \<lparr>from_addr = ''Bank <x@y.tk>'', subject = ''Act now'', has_links = True,
          has_attachments = True, date = None\<rparr> \<and>
   (\<exists>p c. p \<in> {''http://'', ''https://'', ''www.''} \<and> url_char c \<and>
      sublist (p @ [c])
        (''FROM:  Bank <x@y.tk> '' @ [CHR 0x0A] @ ''subject: Act now'' @ [CHR 0x0A, CHR 0x0A] @
         ''Open www.y.tk today. Content-Disposition: attachment''))"
proof -
  let ?raw = "''FROM:  Bank <x@y.tk> '' @ [CHR 0x0A] @ ''subject: Act now'' @ [CHR 0x0A, CHR 0x0A] @
      ''Open www.y.tk today. Content-Disposition: attachment''"
  have e: "extract_metadata ?raw =
     Inr \<lparr>from_addr = ''Bank <x@y.tk>'', subject = ''Act now'', has_links = True,
          has_attachments = True, date = None\<rparr>"
    by code_simp
  note g = extract_metadata_value [of ?raw, THEN conjunct1]
  from trans [OF e [symmetric] g]
  have "has_links \<lparr>from_addr = ''Bank <x@y.tk>'', subject = ''Act now'', has_links = True,
          has_attachments = True, date = None\<rparr> =
        has_links \<lparr>from_addr = (case re_search IGNORECASE from_pattern ?raw of
                         None \<Rightarrow> ''Unknown'' | Some m \<Rightarrow> strip (the (group1 m))),
          subject = (case re_search IGNORECASE subject_pattern ?raw of
                       None \<Rightarrow> ''No Subject'' | Some m \<Rightarrow> strip (the (group1 m))),
          has_links = (\<exists>p c. p \<in> {''http://'', ''https://'', ''www.''} \<and> url_char c \<and>
                          sublist (p @ [c]) ?raw),
          has_attachments = sublist ''Content-Disposition: attachment'' ?raw,
          date = None\<rparr>"
    by (simp only: sum.inject)
  then have "\<exists>p c. p \<in> {''http://'', ''https://'', ''www.''} \<and> url_char c \<and> sublist (p @ [c]) ?raw"
    by (simp only: email_metadata.select_convs simp_thms)
  with e show ?thesis by (rule_tac conjI)
qed

text \<open>
  In the usual case the group is the rest of the line: when the first \<^verbatim>\<open>from:\<close> of the
  text, in any case, is followed by white space and then by a text \<open>v\<close> that begins with
  a character that is not white space and runs to the end of the line, \<^verbatim>\<open>from\<close> is \<open>v\<close>
  trimmed. The same holds for \<^verbatim>\<open>subject\<close>.
\<close>

lemma header_first:
  assumes h: "lower h = lower name"
    and ws: "\<forall>c \<in> set ws. is_space c"
    and v: "v \<noteq> []" "\<not> is_space (hd v)" "CHR 0x0A \<notin> set v"
    and rest: "rest = [] \<or> hd rest = CHR 0x0A"
  shows "tries_first IGNORECASE (Seq (lits name) (Seq (Star (OneOf [Space])) (Group (Plus Any))))
           (h @ ws @ v @ rest, None) (rest, Some v)"
proof -
  let ?S = "\<lambda>x. list_ex (\<lambda>i. item_match IGNORECASE i x) [Space]"
  let ?A = "\<lambda>x. dotall IGNORECASE \<or> x \<noteq> CHR 0x0A"
  from h have lh: "length h = length name" by (auto simp: lower_def dest: map_eq_imp_length_eq)
  have 1: "tries_first IGNORECASE (lits name) (h @ ws @ v @ rest, None) (ws @ v @ rest, None)"
    using tries_first_lits [of name "h @ ws @ v @ rest" None] h lh by simp
  have S: "?S x \<longleftrightarrow> is_space x" for x by simp
  have A: "?A x \<longleftrightarrow> x \<noteq> CHR 0x0A" for x by (simp add: IGNORECASE_def)
  from v obtain x v' where vv: "v = x # v'" by (cases v) auto
  with v have x: "\<not> is_space x" and nl: "\<forall>c \<in> set v'. c \<noteq> CHR 0x0A" by auto
  have "dropWhile ?S (ws @ v @ rest) = v @ rest"
  proof (rule dropWhile_run)
    from ws show "\<forall>c \<in> set ws. ?S c" unfolding S .
    from x vv show "v @ rest = [] \<or> \<not> ?S (hd (v @ rest))" unfolding S by simp
  qed
  with tries_first_star [of IGNORECASE "OneOf [Space]" ?S "ws @ v @ rest" None]
  have 2: "tries_first IGNORECASE (Star (OneOf [Space])) (ws @ v @ rest, None) (v @ rest, None)"
    by simp
  have dw: "dropWhile ?A (v' @ rest) = rest"
  proof (rule dropWhile_run)
    from nl show "\<forall>c \<in> set v'. ?A c" unfolding A .
    from rest show "rest = [] \<or> \<not> ?A (hd rest)" unfolding A by simp
  qed
  from x have "x \<noteq> CHR 0x0A" by (auto simp: is_space_def)
  then have "?A x" unfolding A .
  from tries_first_plus [of IGNORECASE Any ?A x "v' @ rest" None, OF _ _ this] dw
  have "tries_first IGNORECASE (Plus Any) (v @ rest, None) (rest, None)"
    by (simp add: vv)
  from tries_first_group [OF this]
  have 3: "tries_first IGNORECASE (Group (Plus Any)) (v @ rest, None) (rest, Some v)" by simp
  from 1 2 3 show ?thesis by (intro tries_first_seq)
qed

lemma header_search:
  assumes t: "raw = pre @ h @ ws @ v @ rest"
    and first: "\<forall>i < length pre. lower (take (length name) (drop i raw)) \<noteq> lower name"
    and h: "lower h = lower name"
    and ws: "\<forall>c \<in> set ws. is_space c"
    and v: "v \<noteq> []" "\<not> is_space (hd v)" "CHR 0x0A \<notin> set v"
    and rest: "rest = [] \<or> hd rest = CHR 0x0A"
  shows "\<exists>g0. re_search IGNORECASE (Seq (lits name) (Seq (Star (OneOf [Space])) (Group (Plus Any)))) raw
           = Some \<lparr>group0 = g0, group1 = Some v\<rparr>"
proof -
  let ?r = "Seq (lits name) (Seq (Star (OneOf [Space])) (Group (Plus Any)))"
  from tries_first_match_at [OF header_first [OF h ws v rest]]
  obtain g0 where m: "match_at IGNORECASE ?r (h @ ws @ v @ rest) = Some \<lparr>group0 = g0, group1 = Some v\<rparr>"
    by blast
  have "\<forall>i < length pre. match_at IGNORECASE ?r (drop i (pre @ h @ ws @ v @ rest)) = None"
  proof (intro allI impI)
    fix i assume "i < length pre"
    with first t have "lower (take (length name) (drop i (pre @ h @ ws @ v @ rest))) \<noteq> lower name"
      by simp
    from ms_lits_none [OF this] show "match_at IGNORECASE ?r (drop i (pre @ h @ ws @ v @ rest)) = None"
      by (simp add: match_at_def)
  qed
  from re_search_skip [OF this m] t show ?thesis by blast
qed

lemma from_first_line:
  assumes "raw = pre @ h @ ws @ v @ rest"
    and "\<forall>i < length pre. lower (take 5 (drop i raw)) \<noteq> ''from:''"
    and "lower h = ''from:''"
    and "\<forall>c \<in> set ws. is_space c"
    and "v \<noteq> []" "\<not> is_space (hd v)" "CHR 0x0A \<notin> set v"
    and "rest = [] \<or> hd rest = CHR 0x0A"
  shows "\<exists>md. extract_metadata raw = Inr md \<and> from_addr md = strip v"
proof -
  have l: "lower ''From:'' = ''from:''" by code_simp
  have len: "length ''From:'' = 5" by simp
  have "\<exists>g0. re_search IGNORECASE from_pattern raw = Some \<lparr>group0 = g0, group1 = Some v\<rparr>"
    unfolding from_pattern_def
  proof (rule header_search [where name = "''From:''", OF assms(1)])
    from assms(2) show "\<forall>i < length pre. lower (take (length ''From:'') (drop i raw)) \<noteq> lower ''From:''"
      unfolding l len .
    from assms(3) show "lower h = lower ''From:''" unfolding l .
  qed (rule assms)+
  then obtain g0 where "re_search IGNORECASE from_pattern raw = Some \<lparr>group0 = g0, group1 = Some v\<rparr>" ..
  then show ?thesis by (simp add: extract_metadata_general)
qed

lemma subject_first_line:
  assumes "raw = pre @ h @ ws @ v @ rest"
    and "\<forall>i < length pre. lower (take 8 (drop i raw)) \<noteq> ''subject:''"
    and "lower h = ''subject:''"
    and "\<forall>c \<in> set ws. is_space c"
    and "v \<noteq> []" "\<not> is_space (hd v)" "CHR 0x0A \<notin> set v"
    and "rest = [] \<or> hd rest = CHR 0x0A"
  shows "\<exists>md. extract_metadata raw = Inr md \<and> subject md = strip v"
proof -
  have l: "lower ''Subject:'' = ''subject:''" by code_simp
  have len: "length ''Subject:'' = 8" by simp
  have "\<exists>g0. re_search IGNORECASE subject_pattern raw = Some \<lparr>group0 = g0, group1 = Some v\<rparr>"
    unfolding subject_pattern_def
  proof (rule header_search [where name = "''Subject:''", OF assms(1)])
    from assms(2) show "\<forall>i < length pre. lower (take (length ''Subject:'') (drop i raw)) \<noteq> lower ''Subject:''"
      unfolding l len .
    from assms(3) show "lower h = lower ''Subject:''" unfolding l .
  qed (rule assms)+
  then obtain g0 where "re_search IGNORECASE subject_pattern raw = Some \<lparr>group0 = g0, group1 = Some v\<rparr>" ..
  then show ?thesis by (simp add: extract_metadata_general)
qed
section \<open>The email parser\<close>

text \<open>
  The body of the \<^verbatim>\<open>try\<close> raises in three situations: the library fails on the raw
  text, the payload of a message without parts cannot be decoded, or the loop over the
  parts meets a text part that cannot be decoded.
\<close>

lemma parse_email_try_Inl_iff:
  "parse_email_try unescape parsed = Inl e \<longleftrightarrow>
     parsed = Inl e \<or>
     (\<exists>msg. parsed = Inr msg \<and> \<not> is_multipart msg \<and> decoded_payload msg = Inl e) \<or>
     (\<exists>msg. parsed = Inr msg \<and> is_multipart msg \<and> walk_parts unescape (walk msg) ([], []) = Inl e)"
  by (auto simp: parse_email_try_def Let_def split: sum.splits)

text \<open>
  Claim C5. Whenever a step of the body raises, \<^verbatim>\<open>parse_email\<close> returns the raw text as
  the body, with no headers, attachments or links. It returns a record in every case.
\<close>

theorem parse_email_recovers:
  assumes "parse_email_try unescape parsed = Inl e"
  shows "parse_email unescape parsed raw_email =
           \<lparr>headers = [], body = raw_email, attachments = [], links = []\<rparr>"
  using assms by (simp add: parse_email_def)

theorem parse_email_recovers_witness:
  "parse_email_try unescape_plain
     (Inr (Multipart [(''From'', ''a@b.com'')] ''multipart/mixed'' None
        [Leaf [] ''text/plain'' None (Inr ''Hello''),
         Leaf [] ''text/html'' None (Inl ValueError)])) = Inl ValueError \<and>
   parse_email unescape_plain
     (Inr (Multipart [(''From'', ''a@b.com'')] ''multipart/mixed'' None
        [Leaf [] ''text/plain'' None (Inr ''Hello''),
         Leaf [] ''text/html'' None (Inl ValueError)])) ''From: a@b.com'' =
     \<lparr>headers = [], body = ''From: a@b.com'', attachments = [], links = []\<rparr>"
proof -
  let ?p = "Inr (Multipart [(''From'', ''a@b.com'')] ''multipart/mixed'' None
        [Leaf [] ''text/plain'' None (Inr ''Hello''),
         Leaf [] ''text/html'' None (Inl ValueError)])"
  have t: "parse_email_try unescape_plain ?p = Inl ValueError" by code_simp
  from parse_email_recovers [OF t, of "''From: a@b.com''"] t show ?thesis by simp
qed





end
